theory Spec2Isabelle
  imports Complex_Main "HOL-Library.Multiset"
begin

section \<open>Data model: pandas frames of ECB reference rates\<close>

text \<open>
  Both scripts (\<^verbatim>\<open>main.py\<close>, \<^verbatim>\<open>backfill_90d.py\<close>) keep the history as a pandas
  DataFrame: a \<^verbatim>\<open>date\<close> column (datetime64[ns]) followed by one float64 column per
  currency. A float64 cell is either NaN (pandas' marker for a missing value), an
  infinity, or a finite number. Finite arithmetic is modelled exactly (no rounding, no
  overflow, no signed zero); the special values follow IEEE 754 as numpy applies it.
\<close>

datatype cell = NaN | PInf | NInf | Num real

definition isna :: "cell \<Rightarrow> bool" where
  "isna v = (v = NaN)"

text \<open>Element of \<^verbatim>\<open>df["PLN"] / df[ccy]\<close>: numpy true division, warnings suppressed.\<close>

fun truediv :: "cell \<Rightarrow> cell \<Rightarrow> cell" where
  "truediv NaN b = NaN"
| "truediv a NaN = NaN"
| "truediv (Num x) (Num y) =
     (if y = 0 then (if x = 0 then NaN else if 0 < x then PInf else NInf)
      else Num (x / y))"
| "truediv (Num x) PInf = Num 0"
| "truediv (Num x) NInf = Num 0"
| "truediv PInf (Num y) = (if 0 \<le> y then PInf else NInf)"
| "truediv NInf (Num y) = (if 0 \<le> y then NInf else PInf)"
| "truediv a b = NaN"

text \<open>
  A date is the datetime64[ns] value: an integer count of nanoseconds since the epoch
  (NaT is excluded by the type).
\<close>

type_synonym date = int

text \<open>
  A frame: the labels of the currency columns in table order (the \<^verbatim>\<open>date\<close> column is
  kept apart, as the first component of each row) and the rows in table order, each with
  one cell per currency column. The row labels of the frames (a RangeIndex, permuted by
  sorting) are unique and only align a frame with columns taken from itself, so they are
  left out: rows are aligned by position.
\<close>

record frame =
  columns :: "string list"
  rows :: "(date \<times> cell list) list"

datatype error = ValueError | KeyError | TypeError

definition dates :: "frame \<Rightarrow> date list" where
  "dates f = map fst (rows f)"

text \<open>Label-based read of one row, NaN where the label is not a column (reindexing).\<close>

definition cell_of :: "string list \<Rightarrow> cell list \<Rightarrow> string \<Rightarrow> cell" where
  "cell_of cs vs c = (case map_of (zip cs vs) c of None \<Rightarrow> NaN | Some v \<Rightarrow> v)"

text \<open>\<^verbatim>\<open>df[c]\<close> for a currency column: the cells of that column in row order.\<close>

definition column :: "frame \<Rightarrow> string \<Rightarrow> cell list" where
  "column f c = map (\<lambda>r. cell_of (columns f) (snd r) c) (rows f)"

text \<open>
  \<^verbatim>\<open>sort_values("date")\<close> and \<^verbatim>\<open>sort_index()\<close> on a date index. pandas sorts with
  quicksort, which fixes the order of the rows only up to rows of equal date; the model
  sorts stably. Every property below that depends on the order is stated for frames with
  unique dates, where the two agree.
\<close>

definition sort_values :: "frame \<Rightarrow> frame" where
  "sort_values f = f\<lparr>rows := sort_key fst (rows f)\<rparr>"

text \<open>
  \<^verbatim>\<open>pd.concat([a, b])\<close> along the rows: the columns are the union in order of first
  appearance, both frames are reindexed to it (NaN for a column a frame lacks), the rows
  of \<open>b\<close> follow those of \<open>a\<close>.
\<close>

definition concat_frames :: "frame \<Rightarrow> frame \<Rightarrow> frame" where
  "concat_frames a b =
     (let cs = columns a @ filter (\<lambda>c. c \<notin> set (columns a)) (columns b)
      in \<lparr>columns = cs,
          rows = map (\<lambda>r. (fst r, map (cell_of (columns a) (snd r)) cs)) (rows a)
               @ map (\<lambda>r. (fst r, map (cell_of (columns b) (snd r)) cs)) (rows b)\<rparr>)"

section \<open>Daily flow: \<^verbatim>\<open>upsert_daily_row\<close> (main.py)\<close>

text \<open>\<^verbatim>\<open>history[col] = pd.Series(dtype="float")\<close>: a new column, NaN in every row.\<close>

definition add_column :: "string \<Rightarrow> frame \<Rightarrow> frame" where
  "add_column col f =
     \<lparr>columns = columns f @ [col], rows = map (\<lambda>r. (fst r, snd r @ [NaN])) (rows f)\<rparr>"

text \<open>The loop over \<^verbatim>\<open>today_row.columns\<close> that adds the currencies the history lacks.\<close>

definition add_missing_columns :: "string list \<Rightarrow> frame \<Rightarrow> frame" where
  "add_missing_columns cols history =
     fold (\<lambda>col h. if col \<notin> set (columns h) then add_column col h else h) cols history"

text \<open>
  \<^verbatim>\<open>today_row[history.columns]\<close>: selection by a list of labels, which raises KeyError
  when a label is not a column of the frame.
\<close>

definition select_columns :: "string list \<Rightarrow> frame \<Rightarrow> error + frame" where
  "select_columns cs f =
     (if set cs \<subseteq> set (columns f)
      then Inr \<lparr>columns = cs, rows = map (\<lambda>r. (fst r, map (cell_of (columns f) (snd r)) cs)) (rows f)\<rparr>
      else Inl KeyError)"

text \<open>
  \<^verbatim>\<open>today_row.empty\<close> holds when the frame has no row; \<open>d\<close> is the date of its first row.
  The columns are added to the caller's frame in place; the model returns the new frame.
\<close>

definition upsert_daily_row :: "frame \<Rightarrow> frame \<Rightarrow> error + frame" where
  "upsert_daily_row history today_row =
     (if rows today_row = [] then Inr history
      else
        let d = fst (hd (rows today_row)) in
        if d \<in> set (dates history) then Inr history
        else
          let history' = add_missing_columns (columns today_row) history in
          case select_columns (columns history') today_row of
            Inl e \<Rightarrow> Inl e
          | Inr sel \<Rightarrow> Inr (sort_values (concat_frames history' sel)))"

section \<open>Backfill flow: \<^verbatim>\<open>upsert_90d_into_history\<close> (backfill_90d.py)\<close>

text \<open>
  \<^verbatim>\<open>DataFrame.update(other)\<close> with its defaults (left join, overwrite), as in pandas 2,
  the release line the scripts were written for: \<open>other\<close> is reindexed to the index of the
  frame, and in every column the two frames share, the cells where \<open>other\<close> is not NaN
  replace those of the frame. Rows of \<open>other\<close> with a date the frame lacks and columns
  that only \<open>other\<close> has are ignored. The reindexing raises ValueError on a duplicated
  index of \<open>other\<close>; the caller below carries that test. (Checks that later releases add
  to \<^verbatim>\<open>update\<close>, such as a refusal of an \<open>other\<close> that shares no label with the frame, are
  not part of the model.)
\<close>

definition update :: "frame \<Rightarrow> frame \<Rightarrow> frame" where
  "update self other =
     self\<lparr>rows :=
       map (\<lambda>r. case map_of (rows other) (fst r) of
                  None \<Rightarrow> r
                | Some ws \<Rightarrow>
                    (fst r,
                     map (\<lambda>(c, this).
                            let that = cell_of (columns other) ws c
                            in if c \<in> set (columns other) \<and> \<not> isna that then that else this)
                         (zip (columns self) (snd r))))
           (rows self)\<rparr>"

text \<open>\<^verbatim>\<open>Index.difference\<close>: the labels of the first index not in the second, unique and sorted.\<close>

definition index_difference :: "date list \<Rightarrow> date list \<Rightarrow> date list" where
  "index_difference a b = sort (remdups (filter (\<lambda>d. d \<notin> set b) a))"

text \<open>\<^verbatim>\<open>df.loc[labels]\<close>: the rows with these index labels, in the order of the labels.\<close>

definition loc :: "frame \<Rightarrow> date list \<Rightarrow> frame" where
  "loc f idx = f\<lparr>rows := concat (map (\<lambda>d. filter (\<lambda>r. fst r = d) (rows f)) idx)\<rparr>"

text \<open>
  \<^verbatim>\<open>hist.empty\<close> holds when the history has no row (it always has the \<^verbatim>\<open>date\<close> column);
  \<^verbatim>\<open>set_index("date")\<close> and \<^verbatim>\<open>reset_index()\<close> move the dates into the index and back,
  which the representation of a frame already does.
\<close>

definition upsert_90d_into_history :: "frame \<Rightarrow> frame \<Rightarrow> error + frame" where
  "upsert_90d_into_history hist last90 =
     (if rows hist = [] then Inr last90
      else if \<not> distinct (dates last90) then Inl ValueError
      else
        let hist_idx = update hist last90;
            missing_idx = index_difference (dates last90) (dates hist_idx);
            hist_idx' = (if length missing_idx > 0
                         then concat_frames hist_idx (loc last90 missing_idx)
                         else hist_idx)
        in Inr (sort_values hist_idx'))"

section \<open>Cross rates: \<^verbatim>\<open>compute_pln_rates\<close> (both scripts, same text)\<close>

text \<open>\<^verbatim>\<open>out[name] = values\<close>: replaces the column of that name, or appends a new one.\<close>

definition set_column :: "string \<Rightarrow> cell list \<Rightarrow> frame \<Rightarrow> frame" where
  "set_column name vals out =
     (if name \<in> set (columns out)
      then out\<lparr>rows :=
             map (\<lambda>(r, v). (fst r, map (\<lambda>(c, old). if c = name then v else old)
                                        (zip (columns out) (snd r))))
                 (zip (rows out) vals)\<rparr>
      else \<lparr>columns = columns out @ [name],
            rows = map (\<lambda>(r, v). (fst r, snd r @ [v])) (zip (rows out) vals)\<rparr>)"

text \<open>
  The loop over the targets. \<^verbatim>\<open>df.columns\<close> contains \<^verbatim>\<open>date\<close> too, so a target of that
  name is not skipped: the division of a float column by the datetime column raises
  TypeError.
\<close>

fun derive_loop :: "frame \<Rightarrow> string list \<Rightarrow> frame \<Rightarrow> error + frame" where
  "derive_loop df [] out = Inr out"
| "derive_loop df (ccy # rest) out =
     (if ccy = ''EUR'' then derive_loop df rest out
      else if ccy \<noteq> ''date'' \<and> ccy \<notin> set (columns df) then derive_loop df rest out
      else if ccy = ''date'' then Inl TypeError
      else derive_loop df rest
             (set_column (ccy @ ''_PLN'')
                (map (\<lambda>(a, b). truediv a b) (zip (column df ''PLN'') (column df ccy))) out))"

text \<open>
  \<^verbatim>\<open>dropna(how="all", subset=<all columns but date>)\<close>: a row stays when at least one
  of its cells is not NaN (so no row stays when there is no column).
\<close>

definition dropna_all :: "frame \<Rightarrow> frame" where
  "dropna_all f = f\<lparr>rows := filter (\<lambda>r. list_ex (\<lambda>v. \<not> isna v) (snd r)) (rows f)\<rparr>"

definition compute_pln_rates :: "frame \<Rightarrow> string list \<Rightarrow> error + frame" where
  "compute_pln_rates df targets =
     (if ''PLN'' \<notin> set (columns df) then Inl ValueError
      else
        let out0 = \<lparr>columns = [], rows = map (\<lambda>r. (fst r, [])) (rows df)\<rparr>;
            out1 = (if ''EUR'' \<in> set targets
                    then set_column ''EUR_PLN'' (column df ''PLN'') out0 else out0)
        in case derive_loop df targets out1 of
             Inl e \<Rightarrow> Inl e
           | Inr out \<Rightarrow> Inr (sort_values (dropna_all out)))"

section \<open>Sequences of merges\<close>

text \<open>
  The two flows run one after the other on the persisted history: the daily flow merges
  the one-row frame of \<^verbatim>\<open>fetch_ecb_daily_xml\<close>, the backfill flow the frame of
  \<^verbatim>\<open>fetch_ecb_90d_xml\<close>. An exception ends the run.
\<close>

datatype merge_op = Daily frame | Batch frame

fun apply_merge :: "frame \<Rightarrow> merge_op \<Rightarrow> error + frame" where
  "apply_merge h (Daily today_row) = upsert_daily_row h today_row"
| "apply_merge h (Batch last90) = upsert_90d_into_history h last90"

fun run_merges :: "frame \<Rightarrow> merge_op list \<Rightarrow> error + frame" where
  "run_merges h [] = Inr h"
| "run_merges h (m # ms) =
     (case apply_merge h m of Inl e \<Rightarrow> Inl e | Inr h' \<Rightarrow> run_merges h' ms)"

section \<open>Vocabulary of the properties\<close>

text \<open>
  A frame is well formed when its column labels are distinct and every row has one cell
  per column; pandas frames built by the two scripts always are.
\<close>

definition wf_frame :: "frame \<Rightarrow> bool" where
  "wf_frame f = (distinct (columns f) \<and> list_all (\<lambda>r. length (snd r) = length (columns f)) (rows f))"

definition unique_dates :: "frame \<Rightarrow> bool" where
  "unique_dates f = distinct (dates f)"

text \<open>
  A valid merge: the daily observation is a frame of at most one row, the dates of a
  batch are unique (\<^verbatim>\<open>fetch_ecb_90d_xml\<close> drops duplicated dates).
\<close>

fun valid_op :: "merge_op \<Rightarrow> bool" where
  "valid_op (Daily today_row) = (length (rows today_row) \<le> 1)"
| "valid_op (Batch last90) = unique_dates last90"

definition ascending :: "frame \<Rightarrow> bool" where
  "ascending f = sorted_wrt (<) (dates f)"

text \<open>The cell of a frame at a date and a currency, when that row and column exist.\<close>

definition cell_at :: "frame \<Rightarrow> date \<Rightarrow> string \<Rightarrow> cell option" where
  "cell_at f d c =
     (case map_of (rows f) d of
        None \<Rightarrow> None
      | Some vs \<Rightarrow> if c \<in> set (columns f) then Some (cell_of (columns f) vs c) else None)"

section \<open>Auxiliary facts\<close>

subsection \<open>Reading a row by label\<close>

lemma cell_of_notin: "c \<notin> set cs \<Longrightarrow> cell_of cs vs c = NaN"
proof -
  assume "c \<notin> set cs"
  then have "c \<notin> fst ` set (zip cs vs)"
    by (auto dest: set_zip_leftD)
  then have "map_of (zip cs vs) c = None"
    by (simp add: map_of_eq_None_iff)
  then show ?thesis by (simp add: cell_of_def)
qed

lemma cell_of_map: "cell_of ks (map g ks) c = (if c \<in> set ks then g c else NaN)"
proof (cases "c \<in> set ks")
  case True
  have "map_of (zip ks (map g ks)) c = Some (g c)" if "c \<in> set ks" for ks
    using that by (induction ks) auto
  with True show ?thesis by (simp add: cell_of_def)
next
  case False
  then show ?thesis by (simp add: cell_of_notin)
qed

lemma map_of_zip_map:
  "map_of (zip cs (map f (zip cs vs))) c = map_option (\<lambda>v. f (c, v)) (map_of (zip cs vs) c)"
proof (induction cs arbitrary: vs)
  case Nil
  then show ?case by simp
next
  case (Cons a cs)
  then show ?case by (cases vs) auto
qed

lemma map_of_zip_cell_of:
  "length vs = length cs \<Longrightarrow> c \<in> set cs \<Longrightarrow> map_of (zip cs vs) c = Some (cell_of cs vs c)"
proof -
  assume a: "length vs = length cs" "c \<in> set cs"
  then obtain v where "(c, v) \<in> set (zip cs vs)"
    using in_set_impl_in_set_zip1 [of cs vs c] by auto
  then have "map_of (zip cs vs) c \<noteq> None"
    by (metis map_of_eq_None_iff fst_conv image_eqI)
  then show ?thesis by (auto simp: cell_of_def)
qed

lemma cell_of_zip_map:
  "length vs = length cs \<Longrightarrow>
   cell_of cs (map f (zip cs vs)) c = (if c \<in> set cs then f (c, cell_of cs vs c) else NaN)"
proof (cases "c \<in> set cs")
  case True
  assume "length vs = length cs"
  from map_of_zip_cell_of [OF this True]
  have "map_of (zip cs (map f (zip cs vs))) c = Some (f (c, cell_of cs vs c))"
    by (simp only: map_of_zip_map option.map)
  then show ?thesis using True by (simp add: cell_of_def [of cs "map f (zip cs vs)"])
next
  case False
  then show ?thesis by (simp add: cell_of_notin)
qed

lemma map_of_map_row:
  "map_of (map (\<lambda>r. (fst r, G r)) xs) d = map_option (\<lambda>vs. G (d, vs)) (map_of xs d)"
  by (induction xs) auto

lemma map_of_sort_key:
  "distinct (map fst xs) \<Longrightarrow> map_of (sort_key fst xs) = map_of xs"
proof -
  assume d: "distinct (map fst xs)"
  have "mset (map fst (sort_key fst xs)) = mset (map fst xs)" by simp
  then have "distinct (map fst (sort_key fst xs)) = distinct (map fst xs)"
    by (rule mset_eq_imp_distinct_iff)
  then have "distinct (map fst (sort_key fst xs))"
    using d by simp
  then show ?thesis using d by (simp add: map_of_inject_set)
qed


subsection \<open>Sorting by date\<close>

lemma columns_sort_values [simp]: "columns (sort_values f) = columns f"
  by (simp add: sort_values_def)

lemma set_rows_sort_values [simp]: "set (rows (sort_values f)) = set (rows f)"
  by (simp add: sort_values_def)

lemma mset_dates_sort_values: "mset (dates (sort_values f)) = mset (dates f)"
  by (simp add: sort_values_def dates_def)

lemma sorted_dates_sort_values: "sorted (dates (sort_values f))"
  by (simp add: sort_values_def dates_def sorted_sort_key)

lemma distinct_dates_sort_values: "distinct (dates (sort_values f)) = distinct (dates f)"
  by (rule mset_eq_imp_distinct_iff) (rule mset_dates_sort_values)

lemma set_dates_sort_values: "set (dates (sort_values f)) = set (dates f)"
  by (rule mset_eq_setD) (rule mset_dates_sort_values)

lemma map_of_rows_sort_values:
  "distinct (dates f) \<Longrightarrow> map_of (rows (sort_values f)) = map_of (rows f)"
  by (simp add: sort_values_def dates_def map_of_sort_key)

lemma sort_values_id: "sorted (dates f) \<Longrightarrow> sort_values f = f"
  by (simp add: sort_values_def dates_def sort_key_id_if_sorted)

lemma wf_sort_values: "wf_frame (sort_values f) = wf_frame f"
  by (simp add: wf_frame_def list_all_iff)

lemma rows_sort_values_Nil: "(rows (sort_values f) = []) = (rows f = [])"
  by (metis set_rows_sort_values set_empty)

subsection \<open>The primitives of the batch merge\<close>

lemma columns_update [simp]: "columns (update self other) = columns self"
  by (simp add: update_def)

lemma rows_update:
  "rows (update self other) =
     map (\<lambda>r. (fst r,
                case map_of (rows other) (fst r) of
                  None \<Rightarrow> snd r
                | Some ws \<Rightarrow>
                    map (\<lambda>(c, this). if c \<in> set (columns other) \<and> \<not> isna (cell_of (columns other) ws c)
                                      then cell_of (columns other) ws c else this)
                        (zip (columns self) (snd r))))
         (rows self)"
  by (auto simp: update_def Let_def split: option.splits)

lemma dates_update [simp]: "dates (update self other) = dates self"
  by (simp add: dates_def rows_update comp_def)

lemma wf_update: "wf_frame self \<Longrightarrow> wf_frame (update self other)"
  by (auto simp: wf_frame_def rows_update list_all_iff split: option.splits)

lemma columns_concat_frames:
  "columns (concat_frames a b) = columns a @ filter (\<lambda>c. c \<notin> set (columns a)) (columns b)"
  by (simp add: concat_frames_def Let_def)

lemma rows_concat_frames:
  "rows (concat_frames a b) =
     map (\<lambda>r. (fst r, map (cell_of (columns a) (snd r)) (columns (concat_frames a b)))) (rows a)
   @ map (\<lambda>r. (fst r, map (cell_of (columns b) (snd r)) (columns (concat_frames a b)))) (rows b)"
  by (simp add: concat_frames_def Let_def)

lemma dates_concat_frames: "dates (concat_frames a b) = dates a @ dates b"
  by (simp add: dates_def rows_concat_frames comp_def)

lemma wf_concat_frames:
  "distinct (columns a) \<Longrightarrow> distinct (columns b) \<Longrightarrow> wf_frame (concat_frames a b)"
  by (auto simp: wf_frame_def concat_frames_def Let_def list_all_iff)

lemma columns_loc [simp]: "columns (loc f idx) = columns f"
  by (simp add: loc_def)

lemma map_of_filter_date:
  "map_of (filter (\<lambda>r. fst r = a) xs) d = (if d = a then map_of xs d else None)"
  by (induction xs) auto

lemma map_of_rows_loc:
  "map_of (rows (loc f idx)) d = (if d \<in> set idx then map_of (rows f) d else None)"
proof -
  have "map_of (concat (map (\<lambda>d. filter (\<lambda>r. fst r = d) xs) idx)) d =
        (if d \<in> set idx then map_of xs d else None)" for xs
  proof (induction idx)
    case Nil
    then show ?case by simp
  next
    case (Cons a idx)
    show ?case
    proof (cases "d = a")
      case True
      then show ?thesis
        using Cons by (cases "map_of xs a") (auto simp: map_add_def map_of_filter_date)
    next
      case False
      then show ?thesis using Cons by (simp add: map_add_def map_of_filter_date)
    qed
  qed
  from this [of "rows f"] show ?thesis by (simp add: loc_def)
qed

lemma filter_date_single:
  "distinct (map fst xs) \<Longrightarrow> d \<in> set (map fst xs) \<Longrightarrow> map fst (filter (\<lambda>r. fst r = d) xs) = [d]"
proof (induction xs)
  case Nil
  then show ?case by simp
next
  case (Cons x xs)
  show ?case
  proof (cases "fst x = d")
    case True
    then have "d \<notin> fst ` set xs" using Cons.prems by auto
    then have "filter (\<lambda>r. fst r = d) xs = []"
      by (auto simp: filter_empty_conv)
    with True show ?thesis by simp
  next
    case False
    then show ?thesis using Cons by auto
  qed
qed

lemma dates_loc:
  "distinct (dates f) \<Longrightarrow> set idx \<subseteq> set (dates f) \<Longrightarrow> dates (loc f idx) = idx"
proof -
  assume d: "distinct (dates f)"
  have "set idx \<subseteq> set (dates f) \<Longrightarrow>
        map fst (concat (map (\<lambda>d. filter (\<lambda>r. fst r = d) (rows f)) idx)) = idx" for idx
  proof (induction idx)
    case Nil
    then show ?case by simp
  next
    case (Cons a idx)
    then show ?case
      using d filter_date_single [of "rows f" a] by (simp add: dates_def)
  qed
  then show "set idx \<subseteq> set (dates f) \<Longrightarrow> dates (loc f idx) = idx"
    by (simp add: loc_def dates_def)
qed

lemma set_index_difference [simp]: "set (index_difference a b) = set a - set b"
  by (auto simp: index_difference_def)

lemma distinct_index_difference [simp]: "distinct (index_difference a b)"
  by (simp add: index_difference_def)

lemma sorted_index_difference [simp]: "sorted (index_difference a b)"
  by (simp add: index_difference_def)

lemma index_difference_Nil: "(index_difference a b = []) = (set a \<subseteq> set b)"
  by (metis set_index_difference set_empty Diff_eq_empty_iff)

subsection \<open>Cells of the frames the primitives build\<close>

lemma map_of_rows_None: "(map_of (rows f) d = None) = (d \<notin> set (dates f))"
  by (simp add: map_of_eq_None_iff dates_def)

lemma map_of_rows_length:
  "wf_frame f \<Longrightarrow> map_of (rows f) d = Some vs \<Longrightarrow> length vs = length (columns f)"
  by (auto simp: wf_frame_def list_all_iff dest!: map_of_SomeD)

lemma cell_at_sort_values:
  "distinct (dates f) \<Longrightarrow> cell_at (sort_values f) d c = cell_at f d c"
  by (simp add: cell_at_def map_of_rows_sort_values cong: option.case_cong if_cong)

lemma map_of_rows_update:
  "map_of (rows (update self other)) d =
     map_option (\<lambda>vs. case map_of (rows other) d of
                        None \<Rightarrow> vs
                      | Some ws \<Rightarrow>
                          map (\<lambda>(c, this). if c \<in> set (columns other) \<and> \<not> isna (cell_of (columns other) ws c)
                                            then cell_of (columns other) ws c else this)
                              (zip (columns self) vs))
                (map_of (rows self) d)"
  unfolding rows_update by (simp add: map_of_map_row cong: option.case_cong)

lemma cell_at_update:
  assumes "wf_frame self"
  shows "cell_at (update self other) d c =
           (case cell_at self d c of
              None \<Rightarrow> None
            | Some v \<Rightarrow> Some (case cell_at other d c of
                                None \<Rightarrow> v
                              | Some w \<Rightarrow> if isna w then v else w))"
proof (cases "map_of (rows self) d")
  case None
  then show ?thesis by (simp add: cell_at_def map_of_rows_update)
next
  case (Some vs)
  with assms have len: "length vs = length (columns self)"
    by (rule map_of_rows_length)
  show ?thesis
  proof (cases "c \<in> set (columns self)")
    case False
    then show ?thesis using Some by (simp add: cell_at_def map_of_rows_update)
  next
    case True
    show ?thesis
    proof (cases "map_of (rows other) d")
      case None
      then show ?thesis using Some True by (simp add: cell_at_def map_of_rows_update)
    next
      case other: (Some ws)
      then show ?thesis
        using Some True len
        by (simp add: cell_at_def map_of_rows_update cell_of_zip_map)
    qed
  qed
qed

lemma cell_at_concat_frames:
  "cell_at (concat_frames a b) d c =
     (if c \<in> set (columns a) \<union> set (columns b)
      then (case map_of (rows a) d of
              Some vs \<Rightarrow> Some (cell_of (columns a) vs c)
            | None \<Rightarrow> map_option (\<lambda>ws. cell_of (columns b) ws c) (map_of (rows b) d))
      else None)"
proof -
  have cols: "(c \<in> set (columns (concat_frames a b))) = (c \<in> set (columns a) \<union> set (columns b))"
    by (auto simp: columns_concat_frames)
  have "map_of (rows (concat_frames a b)) d =
          (case map_of (rows a) d of
             Some vs \<Rightarrow> Some (map (cell_of (columns a) vs) (columns (concat_frames a b)))
           | None \<Rightarrow> map_option (\<lambda>ws. map (cell_of (columns b) ws) (columns (concat_frames a b)))
                       (map_of (rows b) d))"
    by (subst rows_concat_frames)
       (simp add: map_add_def map_of_map_row split: option.splits)
  then show ?thesis
    unfolding cell_at_def cols
    by (auto simp: cell_of_map cols split: option.splits)
qed

lemma cell_at_no_column: "c \<notin> set (columns f) \<Longrightarrow> cell_at f d c = None"
  by (simp add: cell_at_def split: option.splits)

lemma cell_at_no_row: "d \<notin> set (dates f) \<Longrightarrow> cell_at f d c = None"
  by (simp add: cell_at_def map_of_rows_None [symmetric])

lemma cell_at_Some:
  "(cell_at f d c = Some v) =
     (\<exists>vs. map_of (rows f) d = Some vs \<and> c \<in> set (columns f) \<and> v = cell_of (columns f) vs c)"
  by (auto simp: cell_at_def split: option.splits)

subsection \<open>The batch merge on a history with rows\<close>

lemma upsert_90d_empty: "rows hist = [] \<Longrightarrow> upsert_90d_into_history hist last90 = Inr last90"
  by (simp add: upsert_90d_into_history_def)

lemma upsert_90d_nonempty:
  assumes "rows hist \<noteq> []" and "distinct (dates last90)"
  shows "upsert_90d_into_history hist last90 =
           Inr (sort_values
                  (if index_difference (dates last90) (dates hist) = [] then update hist last90
                   else concat_frames (update hist last90)
                          (loc last90 (index_difference (dates last90) (dates hist)))))"
  using assms by (simp add: upsert_90d_into_history_def Let_def)

lemma upsert_90d_facts:
  assumes "rows hist \<noteq> []" and "distinct (dates last90)"
    and "upsert_90d_into_history hist last90 = Inr m"
  shows upsert_90d_sorted: "sorted (dates m)"
    and upsert_90d_set_dates: "set (dates m) = set (dates hist) \<union> set (dates last90)"
    and upsert_90d_distinct: "distinct (dates hist) \<Longrightarrow> distinct (dates m)"
    and upsert_90d_rows: "rows m \<noteq> []"
    and upsert_90d_columns: "columns m = columns hist @
           (if set (dates last90) \<subseteq> set (dates hist) then []
            else filter (\<lambda>c. c \<notin> set (columns hist)) (columns last90))"
    and upsert_90d_wf: "wf_frame hist \<Longrightarrow> wf_frame last90 \<Longrightarrow> wf_frame m"
    and upsert_90d_cell_at: "wf_frame hist \<Longrightarrow> distinct (dates hist) \<Longrightarrow> cell_at m d c =
           (if c \<notin> set (columns m) then None
            else if d \<in> set (dates hist)
              then (if c \<in> set (columns hist) then cell_at (update hist last90) d c else Some NaN)
              else map_option (\<lambda>ws. cell_of (columns last90) ws c) (map_of (rows last90) d))"
proof -
  define mi where "mi = index_difference (dates last90) (dates hist)"
  define u where "u = update hist last90"
  define pre where "pre = (if mi = [] then u else concat_frames u (loc last90 mi))"
  have m: "m = sort_values pre"
    using assms(3) upsert_90d_nonempty [OF assms(1,2)] by (auto simp: pre_def mi_def u_def)
  have mi_Nil: "(mi = []) = (set (dates last90) \<subseteq> set (dates hist))"
    by (simp add: mi_def index_difference_Nil)
  have mi_sub: "set mi \<subseteq> set (dates last90)"
    by (auto simp: mi_def)
  have dates: "dates pre = dates hist @ mi"
    using assms(2) mi_sub by (simp add: pre_def u_def dates_concat_frames dates_loc)
  have cols: "columns pre = columns hist @
           (if set (dates last90) \<subseteq> set (dates hist) then []
            else filter (\<lambda>c. c \<notin> set (columns hist)) (columns last90))"
    using mi_Nil by (simp add: pre_def u_def columns_concat_frames)
  have wf: "wf_frame pre" if "wf_frame hist" "wf_frame last90"
  proof (cases "mi = []")
    case True
    then show ?thesis using that by (simp add: pre_def u_def wf_update)
  next
    case False
    have "distinct (columns u)" "distinct (columns (loc last90 mi))"
      using that by (simp_all add: u_def wf_frame_def)
    then show ?thesis using False by (simp add: pre_def wf_concat_frames)
  qed
  have cell: "cell_at pre d c =
           (if c \<notin> set (columns pre) then None
            else if d \<in> set (dates hist)
              then (if c \<in> set (columns hist) then cell_at (update hist last90) d c else Some NaN)
              else map_option (\<lambda>ws. cell_of (columns last90) ws c) (map_of (rows last90) d))"
    if "wf_frame hist" for d c
  proof (cases "c \<in> set (columns pre)")
    case False
    then show ?thesis by (simp add: cell_at_no_column)
  next
    case c: True
    show ?thesis
    proof (cases "mi = []")
      case True
      then have pre_u: "pre = u" by (simp add: pre_def)
      have in_cols: "c \<in> set (columns hist)"
        using c pre_u by (simp add: u_def)
      show ?thesis
      proof (cases "d \<in> set (dates hist)")
        case True
        then show ?thesis using c in_cols pre_u by (simp add: u_def)
      next
        case False
        then have "d \<notin> set (dates last90)"
          using True mi_Nil by auto
        then have "map_of (rows last90) d = None" "map_of (rows u) d = None"
          using False by (simp_all add: map_of_rows_None u_def)
        then show ?thesis using c False pre_u by (simp add: cell_at_def)
      qed
    next
      case False
      then have pre_c: "pre = concat_frames u (loc last90 mi)" by (simp add: pre_def)
      have c': "c \<in> set (columns u) \<union> set (columns (loc last90 mi))"
        using c pre_c by (auto simp: columns_concat_frames)
      show ?thesis
      proof (cases "map_of (rows u) d")
        case None
        then have nd: "d \<notin> set (dates hist)"
          by (simp add: map_of_rows_None u_def)
        have "map_of (rows (loc last90 mi)) d = map_of (rows last90) d"
        proof (cases "d \<in> set mi")
          case True
          then show ?thesis by (simp add: map_of_rows_loc)
        next
          case False
          then have "d \<notin> set (dates last90)" using nd by (simp add: mi_def)
          then have "map_of (rows last90) d = None" by (simp add: map_of_rows_None)
          then show ?thesis using False by (simp add: map_of_rows_loc)
        qed
        then show ?thesis
          using None nd c c' unfolding pre_c cell_at_concat_frames by simp
      next
        case (Some vs)
        then have d: "d \<in> set (dates hist)"
          using map_of_rows_None [of u d] by (simp add: u_def)
        show ?thesis
        proof (cases "c \<in> set (columns hist)")
          case True
          then have "cell_at u d c = Some (cell_of (columns u) vs c)"
            using Some by (simp add: cell_at_def u_def)
          then show ?thesis
            using Some d c c' True unfolding pre_c cell_at_concat_frames
            by (simp add: u_def)
        next
          case False
          then have "cell_of (columns u) vs c = NaN"
            by (simp add: cell_of_notin u_def)
          then show ?thesis
            using Some d c c' False unfolding pre_c cell_at_concat_frames
            by (simp add: u_def)
        qed
      qed
    qed
  qed
  show "sorted (dates m)"
    by (simp add: m sorted_dates_sort_values)
  show "set (dates m) = set (dates hist) \<union> set (dates last90)"
    by (auto simp: m set_dates_sort_values dates mi_def)
  show "distinct (dates m)" if "distinct (dates hist)"
    using that by (auto simp: m distinct_dates_sort_values dates mi_def)
  have "rows pre \<noteq> []"
    using assms(1) dates by (auto simp: dates_def)
  then show "rows m \<noteq> []"
    by (simp add: m rows_sort_values_Nil)
  show "columns m = columns hist @
           (if set (dates last90) \<subseteq> set (dates hist) then []
            else filter (\<lambda>c. c \<notin> set (columns hist)) (columns last90))"
    using cols by (simp add: m)
  show "wf_frame m" if "wf_frame hist" "wf_frame last90"
    using wf that by (simp add: m wf_sort_values)
  show "cell_at m d c =
           (if c \<notin> set (columns m) then None
            else if d \<in> set (dates hist)
              then (if c \<in> set (columns hist) then cell_at (update hist last90) d c else Some NaN)
              else map_option (\<lambda>ws. cell_of (columns last90) ws c) (map_of (rows last90) d))"
    if "wf_frame hist" "distinct (dates hist)"
  proof -
    have "distinct (dates pre)"
      using that(2) by (auto simp: dates mi_def)
    then have "cell_at m d c = cell_at pre d c"
      by (simp add: m cell_at_sort_values)
    then show ?thesis
      using cell [OF that(1), of d c] by (simp add: m)
  qed
qed

lemma upsert_90d_old_cell:
  assumes "wf_frame hist" and "distinct (dates hist)"
    and "upsert_90d_into_history hist last90 = Inr m"
    and "cell_at hist d c = Some v"
  shows "cell_at m d c =
           Some (case cell_at last90 d c of None \<Rightarrow> v | Some w \<Rightarrow> if isna w then v else w)"
proof -
  from assms(4) have d: "d \<in> set (dates hist)" and c: "c \<in> set (columns hist)"
    using cell_at_no_row [of d hist c] cell_at_no_column [of c hist d] by auto
  then have ne: "rows hist \<noteq> []"
    by (auto simp: dates_def)
  with assms(3) have dist: "distinct (dates last90)"
    by (auto simp: upsert_90d_into_history_def split: if_splits)
  have "c \<in> set (columns m)"
    using c by (simp add: upsert_90d_columns [OF ne dist assms(3)])
  then show ?thesis
    using d c assms(4)
    by (simp add: upsert_90d_cell_at [OF ne dist assms(3) assms(1,2)] cell_at_update [OF assms(1)])
qed

subsection \<open>The daily merge on a new date\<close>

lemma cell_of_append_NaN:
  assumes "length vs = length cs"
  shows "cell_of (cs @ new) (vs @ replicate k NaN) c = cell_of cs vs c"
proof (cases "map_of (zip cs vs) c")
  case (Some v)
  then show ?thesis using assms by (simp add: cell_of_def map_add_def)
next
  case None
  have "v = NaN" if "map_of (zip new (replicate k NaN)) c = Some v" for v
  proof -
    from that have "(c, v) \<in> set (zip new (replicate k NaN))"
      by (rule map_of_SomeD)
    then have "v \<in> set (replicate k NaN)"
      by (rule set_zip_rightD)
    then show ?thesis by simp
  qed
  then have "(case map_of (zip new (replicate k NaN)) c of None \<Rightarrow> NaN | Some v \<Rightarrow> v) = NaN"
    by (cases "map_of (zip new (replicate k NaN)) c") simp_all
  moreover have "map_of (zip (cs @ new) (vs @ replicate k NaN)) c = map_of (zip new (replicate k NaN)) c"
    using assms by (simp add: map_add_def None)
  ultimately show ?thesis
    by (simp add: cell_of_def None)
qed

lemma add_missing_columns_shape:
  "\<exists>new. columns (add_missing_columns cols h) = columns h @ new
        \<and> set new = set cols - set (columns h)
        \<and> distinct new
        \<and> rows (add_missing_columns cols h) =
            map (\<lambda>r. (fst r, snd r @ replicate (length new) NaN)) (rows h)"
proof (induction cols arbitrary: h)
  case Nil
  show ?case by (simp add: add_missing_columns_def)
next
  case (Cons col cols)
  show ?case
  proof (cases "col \<in> set (columns h)")
    case True
    then have "add_missing_columns (col # cols) h = add_missing_columns cols h"
      by (simp add: add_missing_columns_def)
    moreover have "set (col # cols) - set (columns h) = set cols - set (columns h)"
      using True by auto
    ultimately show ?thesis using Cons.IH [of h] by simp
  next
    case False
    then have step: "add_missing_columns (col # cols) h = add_missing_columns cols (add_column col h)"
      by (simp add: add_missing_columns_def)
    from Cons.IH [of "add_column col h"] obtain new where
      "columns (add_missing_columns cols (add_column col h)) = columns (add_column col h) @ new
       \<and> set new = set cols - set (columns (add_column col h))
       \<and> distinct new
       \<and> rows (add_missing_columns cols (add_column col h)) =
           map (\<lambda>r. (fst r, snd r @ replicate (length new) NaN)) (rows (add_column col h))" ..
    then have new: "columns (add_missing_columns cols (add_column col h)) = columns (add_column col h) @ new"
        "set new = set cols - set (columns (add_column col h))"
        "distinct new"
        "rows (add_missing_columns cols (add_column col h)) =
           map (\<lambda>r. (fst r, snd r @ replicate (length new) NaN)) (rows (add_column col h))"
      by simp_all
    have "columns (add_missing_columns (col # cols) h) = columns h @ (col # new)"
      using new(1) by (simp add: step add_column_def)
    moreover have "set (col # new) = set (col # cols) - set (columns h)"
      using new(2) False by (auto simp: add_column_def)
    moreover have "distinct (col # new)"
      using new(2,3) by (auto simp: add_column_def)
    moreover have "rows (add_missing_columns (col # cols) h) =
           map (\<lambda>r. (fst r, snd r @ replicate (length (col # new)) NaN)) (rows h)"
      using new(4) by (simp add: step add_column_def comp_def)
    ultimately show ?thesis by blast
  qed
qed

lemma dates_add_missing_columns [simp]: "dates (add_missing_columns cols h) = dates h"
proof -
  from add_missing_columns_shape [of cols h] obtain new where
    "columns (add_missing_columns cols h) = columns h @ new
        \<and> set new = set cols - set (columns h)
        \<and> distinct new
        \<and> rows (add_missing_columns cols h) =
            map (\<lambda>r. (fst r, snd r @ replicate (length new) NaN)) (rows h)" ..
  then show ?thesis by (simp add: dates_def comp_def)
qed

lemma set_columns_add_missing_columns:
  "set (columns (add_missing_columns cols h)) = set (columns h) \<union> set cols"
proof -
  from add_missing_columns_shape [of cols h] obtain new where
    "columns (add_missing_columns cols h) = columns h @ new
        \<and> set new = set cols - set (columns h)
        \<and> distinct new
        \<and> rows (add_missing_columns cols h) =
            map (\<lambda>r. (fst r, snd r @ replicate (length new) NaN)) (rows h)" ..
  then show ?thesis by auto
qed

lemma cell_at_add_missing_columns:
  assumes "wf_frame h"
  shows "cell_at (add_missing_columns cols h) d c =
           (if c \<in> set (columns h) \<union> set cols
            then map_option (\<lambda>vs. cell_of (columns h) vs c) (map_of (rows h) d) else None)"
proof -
  from add_missing_columns_shape [of cols h] obtain new where
    "columns (add_missing_columns cols h) = columns h @ new
        \<and> set new = set cols - set (columns h)
        \<and> distinct new
        \<and> rows (add_missing_columns cols h) =
            map (\<lambda>r. (fst r, snd r @ replicate (length new) NaN)) (rows h)" ..
  then have new: "columns (add_missing_columns cols h) = columns h @ new"
      "set new = set cols - set (columns h)"
      "rows (add_missing_columns cols h) =
         map (\<lambda>r. (fst r, snd r @ replicate (length new) NaN)) (rows h)"
    by simp_all
  have cols: "(c \<in> set (columns (add_missing_columns cols h))) = (c \<in> set (columns h) \<union> set cols)"
    by (simp add: set_columns_add_missing_columns)
  have rows: "map_of (rows (add_missing_columns cols h)) d =
                map_option (\<lambda>vs. vs @ replicate (length new) NaN) (map_of (rows h) d)"
    unfolding new(3) by (simp add: map_of_map_row)
  show ?thesis
  proof (cases "map_of (rows h) d")
    case None
    then show ?thesis using rows by (simp add: cell_at_def)
  next
    case (Some vs)
    with assms have "length vs = length (columns h)"
      by (rule map_of_rows_length)
    then have "cell_of (columns h @ new) (vs @ replicate (length new) NaN) c = cell_of (columns h) vs c"
      by (rule cell_of_append_NaN)
    then show ?thesis
      using Some rows cols by (simp add: cell_at_def new(1))
  qed
qed

lemma select_columns_Inr:
  "select_columns cs f = Inr sel \<Longrightarrow> columns sel = cs \<and> dates sel = dates f"
  by (auto simp: select_columns_def dates_def comp_def split: if_splits)

lemma upsert_daily_row_insert:
  assumes "rows today_row \<noteq> []" and "fst (hd (rows today_row)) \<notin> set (dates history)"
    and "upsert_daily_row history today_row = Inr m"
  shows "set (columns history) \<subseteq> set (columns today_row)"
    and "\<exists>sel. select_columns (columns (add_missing_columns (columns today_row) history)) today_row = Inr sel
            \<and> m = sort_values (concat_frames (add_missing_columns (columns today_row) history) sel)"
proof -
  show "\<exists>sel. select_columns (columns (add_missing_columns (columns today_row) history)) today_row = Inr sel
            \<and> m = sort_values (concat_frames (add_missing_columns (columns today_row) history) sel)"
    using assms by (auto simp: upsert_daily_row_def Let_def split: sum.splits)
  then show "set (columns history) \<subseteq> set (columns today_row)"
    by (auto simp: select_columns_def set_columns_add_missing_columns split: if_splits)
qed

lemma upsert_daily_row_returns:
  assumes "set (columns history) \<subseteq> set (columns today_row)"
  shows "\<exists>m. upsert_daily_row history today_row = Inr m"
proof -
  have "set (columns (add_missing_columns (columns today_row) history)) \<subseteq> set (columns today_row)"
    using assms by (simp add: set_columns_add_missing_columns)
  then show ?thesis
    by (simp add: upsert_daily_row_def Let_def select_columns_def)
qed

lemma upsert_daily_row_dates:
  assumes "upsert_daily_row history today_row = Inr m"
  shows "m = history \<or>
         (rows today_row \<noteq> [] \<and> fst (hd (rows today_row)) \<notin> set (dates history)
          \<and> sorted (dates m) \<and> mset (dates m) = mset (dates history) + mset (dates today_row))"
proof (cases "rows today_row = [] \<or> fst (hd (rows today_row)) \<in> set (dates history)")
  case True
  then have "upsert_daily_row history today_row = Inr history"
    by (auto simp: upsert_daily_row_def Let_def)
  then show ?thesis using assms by simp
next
  case False
  then have ne: "rows today_row \<noteq> []" and new: "fst (hd (rows today_row)) \<notin> set (dates history)"
    by auto
  from upsert_daily_row_insert(2) [OF ne new assms] obtain sel where
    sel: "select_columns (columns (add_missing_columns (columns today_row) history)) today_row = Inr sel"
    and m: "m = sort_values (concat_frames (add_missing_columns (columns today_row) history) sel)"
    by blast
  have "dates sel = dates today_row"
    using sel by (simp add: select_columns_Inr)
  then have "mset (dates m) = mset (dates history) + mset (dates today_row)"
    by (simp add: m mset_dates_sort_values dates_concat_frames)
  moreover have "sorted (dates m)"
    by (simp add: m sorted_dates_sort_values)
  ultimately show ?thesis using ne new by blast
qed

subsection \<open>One row per date\<close>

lemma upsert_daily_row_unique:
  assumes "unique_dates history" and "length (rows today_row) \<le> 1"
    and "upsert_daily_row history today_row = Inr m"
  shows "unique_dates m"
proof -
  from upsert_daily_row_dates [OF assms(3)] show ?thesis
  proof
    assume "m = history"
    then show ?thesis using assms(1) by simp
  next
    assume a: "rows today_row \<noteq> [] \<and> fst (hd (rows today_row)) \<notin> set (dates history)
          \<and> sorted (dates m) \<and> mset (dates m) = mset (dates history) + mset (dates today_row)"
    then obtain r where r: "rows today_row = [r]"
      using assms(2) by (cases "rows today_row") auto
    then have "dates today_row = [fst r]" by (simp add: dates_def)
    then have "mset (dates m) = mset (dates history @ [fst r])"
      using a by simp
    then have "distinct (dates m) = distinct (dates history @ [fst r])"
      by (rule mset_eq_imp_distinct_iff)
    then show ?thesis
      using a r assms(1) by (simp add: unique_dates_def)
  qed
qed

lemma upsert_90d_unique:
  assumes "unique_dates hist" and "unique_dates last90"
    and "upsert_90d_into_history hist last90 = Inr m"
  shows "unique_dates m"
proof (cases "rows hist = []")
  case True
  then show ?thesis using assms(2,3) by (simp add: upsert_90d_empty)
next
  case False
  then show ?thesis
    using assms upsert_90d_distinct [of hist last90 m] by (simp add: unique_dates_def)
qed

subsection \<open>The columns the deriver writes\<close>

lemma cell_of_snoc:
  assumes "length vs = length cs" and "name \<notin> set cs"
  shows "cell_of (cs @ [name]) (vs @ [v]) c = (if c = name then v else cell_of cs vs c)"
proof (cases "map_of (zip cs vs) c")
  case (Some w)
  then have "c \<in> set cs"
    by (auto dest!: map_of_SomeD set_zip_leftD)
  then have "c \<noteq> name" using assms(2) by auto
  then show ?thesis using assms(1) by (simp add: cell_of_def map_add_def Some)
next
  case None
  then show ?thesis using assms(1) by (simp add: cell_of_def map_add_def None)
qed

lemma map_fst_fst_zip:
  "length xs = length ys \<Longrightarrow> map (\<lambda>x. fst (fst x)) (zip xs ys) = map fst xs"
  by (induction xs ys rule: list_induct2) auto

text \<open>
  An output frame is aligned with the input frame when it has the same dates in the same
  order and every row has one cell per column.
\<close>

lemma set_column_aligned:
  assumes "dates out = dates df"
    and "list_all (\<lambda>r. length (snd r) = length (columns out)) (rows out)"
    and "length vals = length (rows df)"
  shows "dates (set_column name vals out) = dates df"
    and "list_all (\<lambda>r. length (snd r) = length (columns (set_column name vals out)))
           (rows (set_column name vals out))"
    and "i < length (rows df) \<Longrightarrow>
           cell_of (columns (set_column name vals out)) (snd (rows (set_column name vals out) ! i)) c =
             (if c = name then vals ! i else cell_of (columns out) (snd (rows out ! i)) c)"
proof -
  have len: "length (rows out) = length (rows df)"
    using assms(1) by (metis dates_def length_map)
  then have len': "length vals = length (rows out)"
    using assms(3) by simp
  have fst_zip: "map (\<lambda>x. fst (fst x)) (zip (rows out) vals) = map fst (rows out)"
    using len' by (simp add: map_fst_fst_zip)
  show "dates (set_column name vals out) = dates df"
    using assms(1) fst_zip by (simp add: set_column_def dates_def comp_def case_prod_unfold)
  show "list_all (\<lambda>r. length (snd r) = length (columns (set_column name vals out)))
           (rows (set_column name vals out))"
    using assms(2)
    by (auto simp: set_column_def list_all_iff dest!: set_zip_leftD)
  show "cell_of (columns (set_column name vals out)) (snd (rows (set_column name vals out) ! i)) c =
             (if c = name then vals ! i else cell_of (columns out) (snd (rows out ! i)) c)"
    if "i < length (rows df)"
  proof -
    from that have i: "i < length (rows out)" "i < length vals"
      using len len' by simp_all
    then have "rows out ! i \<in> set (rows out)" by simp
    then have l: "length (snd (rows out ! i)) = length (columns out)"
      using assms(2) by (simp add: list_all_iff)
    show ?thesis
    proof (cases "name \<in> set (columns out)")
      case True
      then show ?thesis
        using i l by (simp add: set_column_def cell_of_zip_map cell_of_notin)
    next
      case False
      then show ?thesis
        using i l by (simp add: set_column_def cell_of_snoc)
    qed
  qed
qed

lemma length_column [simp]: "length (column df c) = length (rows df)"
  by (simp add: column_def)

lemma derive_loop_aligned:
  assumes "dates out = dates df"
    and "list_all (\<lambda>r. length (snd r) = length (columns out)) (rows out)"
    and "derive_loop df ts out = Inr out'"
  shows "dates out' = dates df \<and>
         list_all (\<lambda>r. length (snd r) = length (columns out')) (rows out')"
  using assms
proof (induction ts arbitrary: out)
  case Nil
  then show ?case by simp
next
  case (Cons ccy rest)
  show ?case
  proof (cases "ccy = ''EUR'' \<or> (ccy \<noteq> ''date'' \<and> ccy \<notin> set (columns df))")
    case True
    then have "derive_loop df rest out = Inr out'"
      using Cons.prems(3) by (auto split: if_splits)
    then show ?thesis using Cons.IH Cons.prems(1,2) by blast
  next
    case False
    let ?vals = "map (\<lambda>(a, b). truediv a b) (zip (column df ''PLN'') (column df ccy))"
    let ?out1 = "set_column (ccy @ ''_PLN'') ?vals out"
    from False Cons.prems(3) have "derive_loop df rest ?out1 = Inr out'"
      by (auto split: if_splits)
    moreover have "dates ?out1 = dates df"
      using Cons.prems(1,2) by (intro set_column_aligned(1)) simp_all
    moreover have "list_all (\<lambda>r. length (snd r) = length (columns ?out1)) (rows ?out1)"
      using Cons.prems(1,2) by (intro set_column_aligned(2) [where df = df]) simp_all
    ultimately show ?thesis using Cons.IH by blast
  qed
qed

lemma columns_set_column: "set (columns (set_column name vals out)) = insert name (set (columns out))"
  by (auto simp: set_column_def)

lemma derive_loop_keeps:
  assumes "dates out = dates df"
    and "list_all (\<lambda>r. length (snd r) = length (columns out)) (rows out)"
    and "derive_loop df ts out = Inr out'"
    and "name \<in> set (columns out)"
    and "\<forall>i<length (rows df). cell_of (columns out) (snd (rows out ! i)) name = g i"
    and "\<And>t i. t \<in> set ts \<Longrightarrow> t \<noteq> ''EUR'' \<Longrightarrow> t @ ''_PLN'' = name \<Longrightarrow> i < length (rows df) \<Longrightarrow>
           truediv (cell_of (columns df) (snd (rows df ! i)) ''PLN'')
                   (cell_of (columns df) (snd (rows df ! i)) t) = g i"
  shows "name \<in> set (columns out') \<and>
         (\<forall>i<length (rows df). cell_of (columns out') (snd (rows out' ! i)) name = g i)"
  using assms
proof (induction ts arbitrary: out)
  case Nil
  then show ?case by simp
next
  case (Cons ccy rest)
  have same: "\<And>t i. t \<in> set rest \<Longrightarrow> t \<noteq> ''EUR'' \<Longrightarrow> t @ ''_PLN'' = name \<Longrightarrow> i < length (rows df) \<Longrightarrow>
           truediv (cell_of (columns df) (snd (rows df ! i)) ''PLN'')
                   (cell_of (columns df) (snd (rows df ! i)) t) = g i"
    using Cons.prems(6) by simp
  show ?case
  proof (cases "ccy = ''EUR'' \<or> (ccy \<noteq> ''date'' \<and> ccy \<notin> set (columns df))")
    case True
    then have "derive_loop df rest out = Inr out'"
      using Cons.prems(3) by (auto split: if_splits)
    then show ?thesis
      using Cons.IH [of out] Cons.prems(1,2,4,5) same by blast
  next
    case False
    let ?vals = "map (\<lambda>(a, b). truediv a b) (zip (column df ''PLN'') (column df ccy))"
    let ?out1 = "set_column (ccy @ ''_PLN'') ?vals out"
    from False Cons.prems(3) have run: "derive_loop df rest ?out1 = Inr out'"
      by (auto split: if_splits)
    have len: "length ?vals = length (rows df)" by simp
    have d1: "dates ?out1 = dates df"
      using Cons.prems(1,2) len by (rule set_column_aligned(1))
    have l1: "list_all (\<lambda>r. length (snd r) = length (columns ?out1)) (rows ?out1)"
      using Cons.prems(1,2) len by (rule set_column_aligned(2))
    have n1: "name \<in> set (columns ?out1)"
      using Cons.prems(4) by (simp add: columns_set_column)
    have c1: "\<forall>i<length (rows df). cell_of (columns ?out1) (snd (rows ?out1 ! i)) name = g i"
    proof (intro allI impI)
      fix i assume i: "i < length (rows df)"
      have "cell_of (columns ?out1) (snd (rows ?out1 ! i)) name =
              (if name = ccy @ ''_PLN'' then ?vals ! i else cell_of (columns out) (snd (rows out ! i)) name)"
        using Cons.prems(1,2) len i by (rule set_column_aligned(3))
      also have "\<dots> = g i"
      proof (cases "name = ccy @ ''_PLN''")
        case True
        have "ccy \<noteq> ''EUR''" using False by simp
        then have "truediv (cell_of (columns df) (snd (rows df ! i)) ''PLN'')
                     (cell_of (columns df) (snd (rows df ! i)) ccy) = g i"
          using Cons.prems(6) [of ccy i] True i by simp
        then show ?thesis using True i by (simp add: column_def)
      next
        case False
        then show ?thesis using Cons.prems(5) i by simp
      qed
      finally show "cell_of (columns ?out1) (snd (rows ?out1 ! i)) name = g i" .
    qed
    show ?thesis
      using Cons.IH [OF d1 l1 run n1 c1] same by blast
  qed
qed

lemma derive_loop_sets:
  assumes "dates out = dates df"
    and "list_all (\<lambda>r. length (snd r) = length (columns out)) (rows out)"
    and "derive_loop df ts out = Inr out'"
    and "ccy \<in> set ts" and "ccy \<noteq> ''EUR''" and "ccy \<in> set (columns df)"
  shows "ccy @ ''_PLN'' \<in> set (columns out') \<and>
         (\<forall>i<length (rows df).
            cell_of (columns out') (snd (rows out' ! i)) (ccy @ ''_PLN'') =
              truediv (cell_of (columns df) (snd (rows df ! i)) ''PLN'')
                      (cell_of (columns df) (snd (rows df ! i)) ccy))"
  using assms(1-4)
proof (induction ts arbitrary: out)
  case Nil
  then show ?case by simp
next
  case (Cons t rest)
  show ?case
  proof (cases "t = ccy")
    case True
    let ?vals = "map (\<lambda>(a, b). truediv a b) (zip (column df ''PLN'') (column df ccy))"
    let ?out1 = "set_column (ccy @ ''_PLN'') ?vals out"
    have nd: "ccy \<noteq> ''date''"
      using Cons.prems(3) True assms(5,6) by (auto split: if_splits)
    then have run: "derive_loop df rest ?out1 = Inr out'"
      using Cons.prems(3) True assms(5,6) by simp
    have len: "length ?vals = length (rows df)" by simp
    have d1: "dates ?out1 = dates df"
      using Cons.prems(1,2) len by (rule set_column_aligned(1))
    have l1: "list_all (\<lambda>r. length (snd r) = length (columns ?out1)) (rows ?out1)"
      using Cons.prems(1,2) len by (rule set_column_aligned(2))
    have n1: "ccy @ ''_PLN'' \<in> set (columns ?out1)"
      by (simp add: columns_set_column)
    have c1: "\<forall>i<length (rows df). cell_of (columns ?out1) (snd (rows ?out1 ! i)) (ccy @ ''_PLN'') =
              truediv (cell_of (columns df) (snd (rows df ! i)) ''PLN'')
                      (cell_of (columns df) (snd (rows df ! i)) ccy)"
    proof (intro allI impI)
      fix i assume i: "i < length (rows df)"
      have "cell_of (columns ?out1) (snd (rows ?out1 ! i)) (ccy @ ''_PLN'') =
              (if ccy @ ''_PLN'' = ccy @ ''_PLN'' then ?vals ! i
               else cell_of (columns out) (snd (rows out ! i)) (ccy @ ''_PLN''))"
        using Cons.prems(1,2) len i by (rule set_column_aligned(3))
      then show "cell_of (columns ?out1) (snd (rows ?out1 ! i)) (ccy @ ''_PLN'') =
              truediv (cell_of (columns df) (snd (rows df ! i)) ''PLN'')
                      (cell_of (columns df) (snd (rows df ! i)) ccy)"
        using i by (simp add: column_def)
    qed
    show ?thesis
      by (rule derive_loop_keeps [OF d1 l1 run n1 c1]) simp
  next
    case False
    then have in_rest: "ccy \<in> set rest" using Cons.prems(4) by simp
    show ?thesis
    proof (cases "t = ''EUR'' \<or> (t \<noteq> ''date'' \<and> t \<notin> set (columns df))")
      case True
      then have "derive_loop df rest out = Inr out'"
        using Cons.prems(3) by (auto split: if_splits)
      then show ?thesis
        using Cons.IH [of out] Cons.prems(1,2) in_rest by blast
    next
      case skip: False
      let ?vals = "map (\<lambda>(a, b). truediv a b) (zip (column df ''PLN'') (column df t))"
      let ?out1 = "set_column (t @ ''_PLN'') ?vals out"
      from skip Cons.prems(3) have run: "derive_loop df rest ?out1 = Inr out'"
        by (auto split: if_splits)
      have len: "length ?vals = length (rows df)" by simp
      have d1: "dates ?out1 = dates df"
        using Cons.prems(1,2) len by (rule set_column_aligned(1))
      have l1: "list_all (\<lambda>r. length (snd r) = length (columns ?out1)) (rows ?out1)"
        using Cons.prems(1,2) len by (rule set_column_aligned(2))
      show ?thesis
        using Cons.IH [OF d1 l1 run in_rest] .
    qed
  qed
qed


lemma compute_pln_rates_Inr:
  assumes "compute_pln_rates df targets = Inr out"
  shows "\<exists>out'. out = sort_values (dropna_all out')
           \<and> dates out' = dates df
           \<and> (\<forall>ccy. ccy \<in> set targets \<longrightarrow> ccy \<noteq> ''EUR'' \<longrightarrow> ccy \<in> set (columns df) \<longrightarrow>
                 ccy @ ''_PLN'' \<in> set (columns out') \<and>
                 (\<forall>i<length (rows df).
                    cell_of (columns out') (snd (rows out' ! i)) (ccy @ ''_PLN'') =
                      truediv (cell_of (columns df) (snd (rows df ! i)) ''PLN'')
                              (cell_of (columns df) (snd (rows df ! i)) ccy)))"
proof -
  let ?out0 = "\<lparr>columns = [], rows = map (\<lambda>r. (fst r, [])) (rows df)\<rparr>"
  let ?out1 = "if ''EUR'' \<in> set targets then set_column ''EUR_PLN'' (column df ''PLN'') ?out0 else ?out0"
  from assms obtain out' where run: "derive_loop df targets ?out1 = Inr out'"
    and out: "out = sort_values (dropna_all out')"
    by (auto simp: compute_pln_rates_def Let_def split: if_splits sum.splits)
  have d0: "dates ?out0 = dates df"
    by (simp add: dates_def comp_def)
  have l0: "list_all (\<lambda>r. length (snd r) = length (columns ?out0)) (rows ?out0)"
    by (simp add: list_all_iff)
  have len: "length (column df ''PLN'') = length (rows df)" by simp
  have d1: "dates ?out1 = dates df"
    using set_column_aligned(1) [OF d0 l0 len, of "''EUR_PLN''"] d0
    by (cases "''EUR'' \<in> set targets") simp_all
  have l1: "list_all (\<lambda>r. length (snd r) = length (columns ?out1)) (rows ?out1)"
    using set_column_aligned(2) [OF d0 l0 len, of "''EUR_PLN''"] l0
    by (cases "''EUR'' \<in> set targets") simp_all
  have "dates out' = dates df"
    using derive_loop_aligned [OF d1 l1 run] by simp
  moreover have "ccy @ ''_PLN'' \<in> set (columns out') \<and>
                 (\<forall>i<length (rows df).
                    cell_of (columns out') (snd (rows out' ! i)) (ccy @ ''_PLN'') =
                      truediv (cell_of (columns df) (snd (rows df ! i)) ''PLN'')
                              (cell_of (columns df) (snd (rows df ! i)) ccy))"
    if "ccy \<in> set targets" "ccy \<noteq> ''EUR''" "ccy \<in> set (columns df)" for ccy
    using derive_loop_sets [OF d1 l1 run that] .
  ultimately show ?thesis using out by blast
qed

lemma columns_dropna_all [simp]: "columns (dropna_all f) = columns f"
  by (simp add: dropna_all_def)

lemma set_rows_dropna_all: "set (rows (dropna_all f)) \<subseteq> set (rows f)"
  by (auto simp: dropna_all_def)



lemma compute_pln_rates_cell:
  assumes "unique_dates df" and "compute_pln_rates df targets = Inr out"
    and "ccy \<in> set targets" and "ccy \<noteq> ''EUR''" and "ccy \<in> set (columns df)"
  shows "ccy @ ''_PLN'' \<in> set (columns out)"
    and "map_of (rows out) d = Some ws \<Longrightarrow>
           \<exists>vs. map_of (rows df) d = Some vs \<and>
                cell_of (columns out) ws (ccy @ ''_PLN'') =
                  truediv (cell_of (columns df) vs ''PLN'') (cell_of (columns df) vs ccy)"
proof -
  from compute_pln_rates_Inr [OF assms(2)] obtain out' where
    out: "out = sort_values (dropna_all out')" and d: "dates out' = dates df"
    and all: "\<forall>ccy. ccy \<in> set targets \<longrightarrow> ccy \<noteq> ''EUR'' \<longrightarrow> ccy \<in> set (columns df) \<longrightarrow>
                 ccy @ ''_PLN'' \<in> set (columns out') \<and>
                 (\<forall>i<length (rows df).
                    cell_of (columns out') (snd (rows out' ! i)) (ccy @ ''_PLN'') =
                      truediv (cell_of (columns df) (snd (rows df ! i)) ''PLN'')
                              (cell_of (columns df) (snd (rows df ! i)) ccy))"
    by blast
  from all assms(3-5) have col: "ccy @ ''_PLN'' \<in> set (columns out')"
    and cells: "\<forall>i<length (rows df).
                    cell_of (columns out') (snd (rows out' ! i)) (ccy @ ''_PLN'') =
                      truediv (cell_of (columns df) (snd (rows df ! i)) ''PLN'')
                              (cell_of (columns df) (snd (rows df ! i)) ccy)"
    by blast+
  show "ccy @ ''_PLN'' \<in> set (columns out)"
    using col by (simp add: out)
  show "\<exists>vs. map_of (rows df) d = Some vs \<and>
                cell_of (columns out) ws (ccy @ ''_PLN'') =
                  truediv (cell_of (columns df) vs ''PLN'') (cell_of (columns df) vs ccy)"
    if "map_of (rows out) d = Some ws"
  proof -
    from that have "(d, ws) \<in> set (rows out)"
      by (rule map_of_SomeD)
    then have "(d, ws) \<in> set (rows out')"
      using set_rows_dropna_all [of out'] by (auto simp: out)
    then obtain i where i: "i < length (rows out')" and row: "rows out' ! i = (d, ws)"
      by (auto simp: in_set_conv_nth)
    have len: "length (rows out') = length (rows df)"
      using d by (metis dates_def length_map)
    have "fst (rows df ! i) = fst (rows out' ! i)"
      using d i len by (metis dates_def nth_map)
    then have fst: "fst (rows df ! i) = d"
      using row by simp
    have "rows df ! i \<in> set (rows df)"
      using i len by simp
    then have "(d, snd (rows df ! i)) \<in> set (rows df)"
      using fst by (metis prod.collapse)
    then have "map_of (rows df) d = Some (snd (rows df ! i))"
      using assms(1) by (simp add: unique_dates_def dates_def map_of_eq_Some_iff)
    moreover have "cell_of (columns out) ws (ccy @ ''_PLN'') =
            truediv (cell_of (columns df) (snd (rows df ! i)) ''PLN'')
                    (cell_of (columns df) (snd (rows df ! i)) ccy)"
      using cells [rule_format, of i] i len row by (simp add: out)
    ultimately show ?thesis by blast
  qed
qed


lemma truediv_NaN_right [simp]: "truediv a NaN = NaN"
  by (cases a) simp_all

subsection \<open>Cells of the daily merge\<close>

lemma cell_at_concat_frames_left:
  assumes "d \<in> set (dates a)" and "set (columns b) \<subseteq> set (columns a)"
  shows "cell_at (concat_frames a b) d c = cell_at a d c"
proof -
  from assms(1) obtain vs where vs: "map_of (rows a) d = Some vs"
    using map_of_rows_None [of a d] by auto
  have "cell_at a d c = (if c \<in> set (columns a) then Some (cell_of (columns a) vs c) else None)"
    using vs by (simp add: cell_at_def)
  then show ?thesis
    unfolding cell_at_concat_frames using vs assms(2) by auto
qed

lemma upsert_daily_row_old_cell:
  assumes "wf_frame history" and "unique_dates history"
    and "rows today_row = [(d, ws)]" and "d \<notin> set (dates history)"
    and "upsert_daily_row history today_row = Inr m"
    and "d' \<in> set (dates history)"
  shows "cell_at m d' c =
           (if c \<in> set (columns history) \<union> set (columns today_row)
            then map_option (\<lambda>vs. cell_of (columns history) vs c) (map_of (rows history) d')
            else None)"
proof -
  let ?h' = "add_missing_columns (columns today_row) history"
  have ne: "rows today_row \<noteq> []" and new: "fst (hd (rows today_row)) \<notin> set (dates history)"
    using assms(3,4) by simp_all
  from upsert_daily_row_insert(2) [OF ne new assms(5)] obtain sel where
    sel: "select_columns (columns ?h') today_row = Inr sel"
    and m: "m = sort_values (concat_frames ?h' sel)"
    by blast
  have sel_cols: "columns sel = columns ?h'" and sel_dates: "dates sel = dates today_row"
    using select_columns_Inr [OF sel] by simp_all
  have "dates (concat_frames ?h' sel) = dates history @ [d]"
    using assms(3) by (simp add: dates_concat_frames sel_dates) (simp add: dates_def)
  then have "distinct (dates (concat_frames ?h' sel))"
    using assms(2,4) by (simp add: unique_dates_def)
  then have "cell_at m d' c = cell_at (concat_frames ?h' sel) d' c"
    by (simp add: m cell_at_sort_values)
  also have "\<dots> = cell_at ?h' d' c"
    using assms(6) by (intro cell_at_concat_frames_left) (simp_all add: sel_cols)
  also have "\<dots> = (if c \<in> set (columns history) \<union> set (columns today_row)
            then map_option (\<lambda>vs. cell_of (columns history) vs c) (map_of (rows history) d')
            else None)"
    using assms(1) by (rule cell_at_add_missing_columns)
  finally show ?thesis .
qed

lemma upsert_daily_row_columns:
  assumes "rows today_row \<noteq> []" and "fst (hd (rows today_row)) \<notin> set (dates history)"
    and "upsert_daily_row history today_row = Inr m"
  shows "set (columns m) = set (columns history) \<union> set (columns today_row)"
proof -
  let ?h' = "add_missing_columns (columns today_row) history"
  from upsert_daily_row_insert(2) [OF assms] obtain sel where
    sel: "select_columns (columns ?h') today_row = Inr sel"
    and m: "m = sort_values (concat_frames ?h' sel)"
    by blast
  have "columns sel = columns ?h'"
    using select_columns_Inr [OF sel] by simp
  then show ?thesis
    by (auto simp: m columns_concat_frames set_columns_add_missing_columns)
qed

subsection \<open>Merging a batch the history already agrees with\<close>

lemma update_id:
  assumes "wf_frame self" and "distinct (dates self)"
    and "\<And>d c v w. cell_at self d c = Some v \<Longrightarrow> cell_at other d c = Some w \<Longrightarrow> \<not> isna w \<Longrightarrow> v = w"
  shows "update self other = self"
proof -
  have row: "(fst r,
              case map_of (rows other) (fst r) of
                None \<Rightarrow> snd r
              | Some ws \<Rightarrow>
                  map (\<lambda>(c, this). if c \<in> set (columns other) \<and> \<not> isna (cell_of (columns other) ws c)
                                    then cell_of (columns other) ws c else this)
                      (zip (columns self) (snd r))) = r"
    if r: "r \<in> set (rows self)" for r
  proof (cases "map_of (rows other) (fst r)")
    case None
    then show ?thesis by simp
  next
    case (Some ws)
    obtain d vs where dvs: "r = (d, vs)" by (cases r)
    have len: "length vs = length (columns self)"
      using assms(1) r dvs by (auto simp: wf_frame_def list_all_iff)
    have self_row: "map_of (rows self) d = Some vs"
      using assms(2) r dvs by (simp add: dates_def map_of_eq_Some_iff)
    have cols: "distinct (columns self)"
      using assms(1) by (simp add: wf_frame_def)
    have "(if c \<in> set (columns other) \<and> \<not> isna (cell_of (columns other) ws c)
           then cell_of (columns other) ws c else this) = this"
      if in_zip: "(c, this) \<in> set (zip (columns self) vs)" for c this
    proof (cases "c \<in> set (columns other) \<and> \<not> isna (cell_of (columns other) ws c)")
      case False
      then show ?thesis by auto
    next
      case True
      have "map_of (zip (columns self) vs) c = Some this"
        using in_zip cols len by (intro map_of_is_SomeI) simp_all
      then have "cell_of (columns self) vs c = this"
        by (simp add: cell_of_def)
      moreover have "c \<in> set (columns self)"
        using in_zip by (rule set_zip_leftD)
      ultimately have "cell_at self d c = Some this"
        using self_row by (simp add: cell_at_def)
      moreover have "cell_at other d c = Some (cell_of (columns other) ws c)"
        using Some True dvs by (simp add: cell_at_def)
      ultimately have "this = cell_of (columns other) ws c"
        using assms(3) True by blast
      then show ?thesis by simp
    qed
    then have "map (\<lambda>(c, this). if c \<in> set (columns other) \<and> \<not> isna (cell_of (columns other) ws c)
                                    then cell_of (columns other) ws c else this)
                      (zip (columns self) vs) = map snd (zip (columns self) vs)"
      by (intro map_cong) auto
    also have "\<dots> = vs"
      using len by (simp add: map_snd_zip)
    finally show ?thesis using Some dvs by simp
  qed
  have "rows (update self other) = rows self"
    unfolding rows_update using row by (intro map_idI) simp
  moreover have "columns (update self other) = columns self" by simp
  moreover have "frame.more (update self other) = frame.more self"
    by (simp add: update_def)
  ultimately show ?thesis by (intro frame.equality) simp_all
qed

lemma upsert_90d_fixpoint:
  assumes "rows m \<noteq> []" and "wf_frame m" and "distinct (dates m)" and "sorted (dates m)"
    and "distinct (dates last90)" and "set (dates last90) \<subseteq> set (dates m)"
    and "\<And>d c v w. cell_at m d c = Some v \<Longrightarrow> cell_at last90 d c = Some w \<Longrightarrow> \<not> isna w \<Longrightarrow> v = w"
  shows "upsert_90d_into_history m last90 = Inr m"
proof -
  have "update m last90 = m"
    using assms(2,3,7) by (rule update_id)
  moreover have "index_difference (dates last90) (dates m) = []"
    using assms(6) by (simp add: index_difference_Nil)
  moreover have "sort_values m = m"
    using assms(4) by (rule sort_values_id)
  ultimately show ?thesis
    using assms(1,5) by (simp add: upsert_90d_nonempty)
qed

subsection \<open>The rows the deriver keeps\<close>







subsection \<open>Where the merges keep what the batch brings\<close>

text \<open>
  On a new date the daily merge raises KeyError exactly when the history has a column the
  observation lacks.
\<close>

lemma upsert_daily_row_KeyError:
  assumes "rows today_row \<noteq> []" and "fst (hd (rows today_row)) \<notin> set (dates history)"
    and "\<not> set (columns history) \<subseteq> set (columns today_row)"
  shows "upsert_daily_row history today_row = Inl KeyError"
proof -
  have "\<not> set (columns (add_missing_columns (columns today_row) history)) \<subseteq> set (columns today_row)"
    using assms(3) by (simp add: set_columns_add_missing_columns)
  then show ?thesis
    using assms(1,2) by (simp add: upsert_daily_row_def Let_def select_columns_def)
qed

text \<open>
  An observation on a new date with a new currency: the batch merge, and the daily merge
  when it does not raise, add the column, fill it with NaN in the rows of the history
  and keep every cell of the history.
\<close>

lemma schema_growth:
  assumes "wf_frame hist" and "unique_dates hist"
    and "rows obs = [(d, ws)]" and "d \<notin> set (dates hist)"
    and "xyz \<in> set (columns obs)" and "xyz \<notin> set (columns hist)"
    and "op = Batch obs \<or> (op = Daily obs \<and> set (columns hist) \<subseteq> set (columns obs))"
  shows "\<exists>m. apply_merge hist op = Inr m
           \<and> xyz \<in> set (columns m)
           \<and> (\<forall>d'\<in>set (dates hist). cell_at m d' xyz = Some NaN)
           \<and> (\<forall>d' c v. cell_at hist d' c = Some v \<longrightarrow> cell_at m d' c = Some v)"
proof -
  have obs_dates: "dates obs = [d]"
    using assms(3) by (simp add: dates_def)
  from assms(7) show ?thesis
  proof
    assume op: "op = Batch obs"
    show ?thesis
    proof (cases "rows hist = []")
      case True
      then have "dates hist = []" "\<And>d' c. cell_at hist d' c = None"
        by (simp_all add: dates_def cell_at_def)
      then show ?thesis
        using True assms(5) by (simp add: op upsert_90d_empty)
    next
      case False
      have dist: "distinct (dates obs)" by (simp add: obs_dates)
      obtain m where m: "upsert_90d_into_history hist obs = Inr m"
        using False dist by (simp add: upsert_90d_nonempty)
      have h: "distinct (dates hist)"
        using assms(2) by (simp add: unique_dates_def)
      have cols: "columns m = columns hist @ filter (\<lambda>c. c \<notin> set (columns hist)) (columns obs)"
        using upsert_90d_columns [OF False dist m] assms(4) by (simp add: obs_dates)
      then have xyz: "xyz \<in> set (columns m)"
        using assms(5,6) by simp
      have nan: "cell_at m d' xyz = Some NaN" if "d' \<in> set (dates hist)" for d'
        using that xyz assms(6) by (simp add: upsert_90d_cell_at [OF False dist m assms(1) h])
      have keep: "cell_at m d' c = Some v" if "cell_at hist d' c = Some v" for d' c v
      proof -
        from that have "d' \<in> set (dates hist)"
          using cell_at_no_row [of d' hist c] by auto
        then have "d' \<notin> set (dates obs)"
          using assms(4) by (auto simp: obs_dates)
        then have "cell_at obs d' c = None"
          by (rule cell_at_no_row)
        then show ?thesis
          using upsert_90d_old_cell [OF assms(1) h m that] by simp
      qed
      show ?thesis using m xyz nan keep by (auto simp: op)
    qed
  next
    assume "op = Daily obs \<and> set (columns hist) \<subseteq> set (columns obs)"
    then have op: "op = Daily obs" and sub: "set (columns hist) \<subseteq> set (columns obs)"
      by simp_all
    from upsert_daily_row_returns [OF sub] obtain m where
      m: "upsert_daily_row hist obs = Inr m" by blast
    have ne: "rows obs \<noteq> []" and new: "fst (hd (rows obs)) \<notin> set (dates hist)"
      using assms(3,4) by simp_all
    have xyz: "xyz \<in> set (columns m)"
      using upsert_daily_row_columns [OF ne new m] assms(5) by simp
    have nan: "cell_at m d' xyz = Some NaN" if "d' \<in> set (dates hist)" for d'
    proof -
      from that obtain vs where "map_of (rows hist) d' = Some vs"
        using map_of_rows_None [of hist d'] by auto
      then show ?thesis
        using upsert_daily_row_old_cell [OF assms(1-4) m that, of xyz] assms(5,6)
        by (simp add: cell_of_notin)
    qed
    have keep: "cell_at m d' c = Some v" if "cell_at hist d' c = Some v" for d' c v
    proof -
      from that have d': "d' \<in> set (dates hist)"
        using cell_at_no_row [of d' hist c] by auto
      from that show ?thesis
        using upsert_daily_row_old_cell [OF assms(1-4) m d', of c]
        by (auto simp: cell_at_Some)
    qed
    show ?thesis using m xyz nan keep by (auto simp: op)
  qed
qed

text \<open>
  A second merge of the same batch returns the frame of the first one, unless the batch
  has both a date that is new to the history and, on a date of the history, a value in a
  currency that is new to it. (With a history that has no row the batch is returned as
  it is, so it has to be in date order already.)
\<close>

lemma upsert_90d_idempotent:
  assumes "wf_frame hist" and "wf_frame last90"
    and "unique_dates hist" and "unique_dates last90"
    and "rows hist = [] \<longrightarrow> ascending last90"
    and "\<not> set (dates last90) \<subseteq> set (dates hist) \<longrightarrow>
           (\<forall>d c w. d \<in> set (dates hist) \<longrightarrow> c \<notin> set (columns hist) \<longrightarrow>
              cell_at last90 d c = Some w \<longrightarrow> isna w)"
  shows "\<exists>m. upsert_90d_into_history hist last90 = Inr m
           \<and> upsert_90d_into_history m last90 = Inr m
           \<and> unique_dates m
           \<and> (\<forall>d c v. cell_at hist d c = Some v \<longrightarrow>
                 (cell_at last90 d c = None \<or> cell_at last90 d c = Some NaN) \<longrightarrow>
                 cell_at m d c = Some v)"
proof (cases "rows hist = []")
  case True
  have first: "upsert_90d_into_history hist last90 = Inr last90"
    using True by (rule upsert_90d_empty)
  have none: "cell_at hist d c = None" for d c
    using True by (simp add: cell_at_def)
  have second: "upsert_90d_into_history last90 last90 = Inr last90"
  proof (cases "rows last90 = []")
    case True
    then show ?thesis by (rule upsert_90d_empty)
  next
    case False
    have "sorted (dates last90)" "distinct (dates last90)"
      using True assms(5) by (simp_all add: ascending_def strict_sorted_iff)
    then show ?thesis
      using False assms(2) by (intro upsert_90d_fixpoint) simp_all
  qed
  show ?thesis
    using first second assms(4) none by simp
next
  case False
  have dh: "distinct (dates hist)" and db: "distinct (dates last90)"
    using assms(3,4) by (simp_all add: unique_dates_def)
  obtain m where m: "upsert_90d_into_history hist last90 = Inr m"
    using False db by (simp add: upsert_90d_nonempty)
  note facts = upsert_90d_facts [OF False db m]
  have agree: "v = w"
    if v: "cell_at m d c = Some v" and w: "cell_at last90 d c = Some w" and nw: "\<not> isna w"
    for d c v w
  proof -
    have c: "c \<in> set (columns m)"
      using v cell_at_no_column [of c m d] by auto
    show ?thesis
    proof (cases "d \<in> set (dates hist)")
      case True
      have in_hist: "c \<in> set (columns hist)"
      proof (cases "set (dates last90) \<subseteq> set (dates hist)")
        case True
        then show ?thesis using c by (simp add: facts(5))
      next
        case False
        then show ?thesis using assms(6) \<open>d \<in> set (dates hist)\<close> w nw by blast
      qed
      then have "cell_at m d c = cell_at (update hist last90) d c"
        using c True by (simp add: facts(7) [OF assms(1) dh])
      then show ?thesis
        using v w nw by (auto simp: cell_at_update [OF assms(1)] split: option.splits)
    next
      case False
      then have "cell_at m d c = map_option (\<lambda>ws. cell_of (columns last90) ws c) (map_of (rows last90) d)"
        using c by (simp add: facts(7) [OF assms(1) dh])
      then show ?thesis
        using v w by (auto simp: cell_at_Some)
    qed
  qed
  have "upsert_90d_into_history m last90 = Inr m"
    using facts(4) facts(6) [OF assms(1,2)] facts(3) [OF dh] facts(1) db _ agree
    by (rule upsert_90d_fixpoint) (simp add: facts(2))
  moreover have "unique_dates m"
    using facts(3) [OF dh] by (simp add: unique_dates_def)
  moreover have "cell_at m d c = Some v"
    if "cell_at hist d c = Some v" "cell_at last90 d c = None \<or> cell_at last90 d c = Some NaN"
    for d c v
    using upsert_90d_old_cell [OF assms(1) dh m that(1)] that(2) by (auto simp: isna_def)
  ultimately show ?thesis using m by blast
qed

section \<open>The deriver and the missing PLN column\<close>

text \<open>
  C9. \<^verbatim>\<open>compute_pln_rates\<close> raises its ValueError (the spec's MissingBaseCurrencyError)
  exactly when PLN is not among the columns of the history: without the column there is
  no derived series, with it this error is never the result.
\<close>

theorem compute_pln_rates_missing_base:
  "(compute_pln_rates df targets = Inl ValueError) = (''PLN'' \<notin> set (columns df))"
proof -
  have "derive_loop df ts out \<noteq> Inl ValueError" for ts out
    by (induction ts arbitrary: out) auto
  then show ?thesis
    by (auto simp: compute_pln_rates_def Let_def split: sum.splits)
qed

theorem compute_pln_rates_missing_base_witness:
  "compute_pln_rates \<lparr>columns = [''USD''], rows = [(1704412800000000000, [Num 1.09])]\<rparr>
     [''EUR'', ''USD''] = Inl ValueError
   \<and> ''PLN'' \<notin> set (columns \<lparr>columns = [''USD''], rows = [(1704412800000000000, [Num 1.09])]\<rparr>)
   \<and> compute_pln_rates
       \<lparr>columns = [''PLN'', ''USD''], rows = [(1704412800000000000, [Num 4.35, Num 1.09])]\<rparr>
       [''EUR'', ''USD''] \<noteq> Inl ValueError"
proof -
  let ?a = "\<lparr>columns = [''USD''], rows = [(1704412800000000000, [Num 1.09])]\<rparr>"
  let ?b = "\<lparr>columns = [''PLN'', ''USD''], rows = [(1704412800000000000, [Num 4.35, Num 1.09])]\<rparr>"
  have 1: "''PLN'' \<notin> set (columns ?a)" by simp
  have 2: "''PLN'' \<in> set (columns ?b)" by simp
  from compute_pln_rates_missing_base [of ?a "[''EUR'', ''USD'']"]
    compute_pln_rates_missing_base [of ?b "[''EUR'', ''USD'']"] 1 2
  show ?thesis by blast
qed

section \<open>The batch merge: cells of rows present in both frames\<close>

text \<open>
  C10. In the batch merge a missing value of the batch never replaces a recorded one:
  where a date is a row of both frames and a currency a column of both, the batch's cell
  is NaN and the history's cell holds a value, the merged frame keeps that value.
\<close>

theorem upsert_90d_missing_keeps_recorded:
  assumes "wf_frame hist" and "unique_dates hist"
    and "upsert_90d_into_history hist last90 = Inr m"
    and "cell_at hist d c = Some v" and "\<not> isna v"
    and "cell_at last90 d c = Some w" and "isna w"
  shows "cell_at m d c = Some v"
  using upsert_90d_old_cell [OF assms(1) _ assms(3,4)] assms(2,6,7)
  by (simp add: unique_dates_def)

theorem upsert_90d_missing_keeps_recorded_witness:
  "wf_frame \<lparr>columns = [''USD'', ''GBP''], rows = [(1704412800000000000, [Num 1.09, Num 0.86])]\<rparr>
   \<and> unique_dates \<lparr>columns = [''USD'', ''GBP''], rows = [(1704412800000000000, [Num 1.09, Num 0.86])]\<rparr>
   \<and> upsert_90d_into_history
        \<lparr>columns = [''USD'', ''GBP''], rows = [(1704412800000000000, [Num 1.09, Num 0.86])]\<rparr>
        \<lparr>columns = [''USD'', ''GBP''], rows = [(1704412800000000000, [Num 1.10, NaN])]\<rparr>
      = Inr \<lparr>columns = [''USD'', ''GBP''], rows = [(1704412800000000000, [Num 1.10, Num 0.86])]\<rparr>
   \<and> cell_at \<lparr>columns = [''USD'', ''GBP''], rows = [(1704412800000000000, [Num 1.09, Num 0.86])]\<rparr>
         1704412800000000000 ''GBP'' = Some (Num 0.86)
   \<and> \<not> isna (Num 0.86)
   \<and> cell_at \<lparr>columns = [''USD'', ''GBP''], rows = [(1704412800000000000, [Num 1.10, NaN])]\<rparr>
         1704412800000000000 ''GBP'' = Some NaN
   \<and> isna NaN
   \<and> cell_at \<lparr>columns = [''USD'', ''GBP''], rows = [(1704412800000000000, [Num 1.10, Num 0.86])]\<rparr>
         1704412800000000000 ''GBP'' = Some (Num 0.86)"
proof -
  let ?h = "\<lparr>columns = [''USD'', ''GBP''], rows = [(1704412800000000000, [Num 1.09, Num 0.86])]\<rparr>"
  let ?b = "\<lparr>columns = [''USD'', ''GBP''], rows = [(1704412800000000000, [Num 1.10, NaN])]\<rparr>"
  let ?m = "\<lparr>columns = [''USD'', ''GBP''], rows = [(1704412800000000000, [Num 1.10, Num 0.86])]\<rparr>"
  have 1: "wf_frame ?h" by (simp add: wf_frame_def)
  have 2: "unique_dates ?h" by (simp add: unique_dates_def dates_def)
  have 3: "upsert_90d_into_history ?h ?b = Inr ?m"
    by (simp add: upsert_90d_into_history_def update_def index_difference_def dates_def
          sort_values_def cell_of_def isna_def)
  have 4: "cell_at ?h 1704412800000000000 ''GBP'' = Some (Num 0.86)"
    by (simp add: cell_at_def cell_of_def)
  have 5: "\<not> isna (Num 0.86)" by (simp add: isna_def)
  have 6: "cell_at ?b 1704412800000000000 ''GBP'' = Some NaN"
    by (simp add: cell_at_def cell_of_def)
  have 7: "isna NaN" by (simp add: isna_def)
  from upsert_90d_missing_keeps_recorded [OF 1 2 3 4 5 6 7] 1 2 3 4 5 6 7
  show ?thesis by blast
qed

section \<open>The batch merge and a currency the history has no column for\<close>

text \<open>
  C1. For a date that is a row of the history and of the batch, the merged row must hold
  every value the batch has for that date, also in a currency that is not yet a column
  of the history. The code loses such a value: \<^verbatim>\<open>hist_idx.update(last90_idx)\<close> writes only
  into the columns the history has, and \<^verbatim>\<open>pd.concat\<close>, which adds the new columns, runs
  only for the dates the history lacks. With USD on 2024-01-05 in the history and USD 1.10,
  GBP 0.86 for 2024-01-05 in the batch, the merged frame has no GBP cell. The same
  observation is recorded in full when its date is new to the history (the second half of
  the statement, a history that has 2024-01-04 only).
\<close>

theorem upsert_90d_drops_new_currency:
  "upsert_90d_into_history
     \<lparr>columns = [''USD''], rows = [(1704412800000000000, [Num 1.09])]\<rparr>
     \<lparr>columns = [''USD'', ''GBP''], rows = [(1704412800000000000, [Num 1.10, Num 0.86])]\<rparr>
   = Inr \<lparr>columns = [''USD''], rows = [(1704412800000000000, [Num 1.10])]\<rparr>
   \<and> cell_at \<lparr>columns = [''USD'', ''GBP''], rows = [(1704412800000000000, [Num 1.10, Num 0.86])]\<rparr>
         1704412800000000000 ''GBP'' = Some (Num 0.86)
   \<and> \<not> isna (Num 0.86)
   \<and> cell_at \<lparr>columns = [''USD''], rows = [(1704412800000000000, [Num 1.10])]\<rparr>
         1704412800000000000 ''GBP'' = None
   \<and> upsert_90d_into_history
     \<lparr>columns = [''USD''], rows = [(1704326400000000000, [Num 1.08])]\<rparr>
     \<lparr>columns = [''USD'', ''GBP''], rows = [(1704412800000000000, [Num 1.10, Num 0.86])]\<rparr>
   = Inr \<lparr>columns = [''USD'', ''GBP''],
           rows = [(1704326400000000000, [Num 1.08, NaN]),
                   (1704412800000000000, [Num 1.10, Num 0.86])]\<rparr>
   \<and> cell_at \<lparr>columns = [''USD'', ''GBP''],
           rows = [(1704326400000000000, [Num 1.08, NaN]),
                   (1704412800000000000, [Num 1.10, Num 0.86])]\<rparr>
         1704412800000000000 ''GBP'' = Some (Num 0.86)"
  by (simp add: upsert_90d_into_history_def update_def index_difference_def dates_def
        sort_values_def concat_frames_def loc_def cell_of_def isna_def cell_at_def)

section \<open>The daily merge on a date the history already has\<close>

text \<open>
  C5. When the date of the daily observation (the first row of \<^verbatim>\<open>today_row\<close>) is already
  a row of the history, \<^verbatim>\<open>upsert_daily_row\<close> returns the history itself: no row and no
  column changes, whatever values the observation carries.
\<close>

theorem upsert_daily_row_existing_date:
  assumes "rows today_row \<noteq> []" and "fst (hd (rows today_row)) \<in> set (dates history)"
  shows "upsert_daily_row history today_row = Inr history"
  using assms by (simp add: upsert_daily_row_def)

theorem upsert_daily_row_existing_date_witness:
  "rows \<lparr>columns = [''USD''], rows = [(1704412800000000000, [Num 1.25])]\<rparr> \<noteq> []
   \<and> fst (hd (rows \<lparr>columns = [''USD''], rows = [(1704412800000000000, [Num 1.25])]\<rparr>))
       \<in> set (dates \<lparr>columns = [''USD''], rows = [(1704412800000000000, [Num 1.09])]\<rparr>)
   \<and> upsert_daily_row \<lparr>columns = [''USD''], rows = [(1704412800000000000, [Num 1.09])]\<rparr>
        \<lparr>columns = [''USD''], rows = [(1704412800000000000, [Num 1.25])]\<rparr>
      = Inr \<lparr>columns = [''USD''], rows = [(1704412800000000000, [Num 1.09])]\<rparr>"
proof -
  let ?h = "\<lparr>columns = [''USD''], rows = [(1704412800000000000, [Num 1.09])]\<rparr>"
  let ?t = "\<lparr>columns = [''USD''], rows = [(1704412800000000000, [Num 1.25])]\<rparr>"
  have 1: "rows ?t \<noteq> []" by simp
  have 2: "fst (hd (rows ?t)) \<in> set (dates ?h)" by (simp add: dates_def)
  from upsert_daily_row_existing_date [OF 1 2] 1 2 show ?thesis by blast
qed

section \<open>Invariants of the merged history\<close>

text \<open>
  C7. Any sequence of valid merges (daily merges of a frame of at most one row, batch
  merges of a frame with unique dates, in any order) that runs to its end on a history
  with at most one row per date (the empty history is one) ends in a history with at most
  one row per date.
\<close>

theorem run_merges_unique_dates:
  assumes "unique_dates h" and "list_all valid_op ms" and "run_merges h ms = Inr h'"
  shows "unique_dates h'"
  using assms
proof (induction ms arbitrary: h)
  case Nil
  then show ?case by simp
next
  case (Cons m ms)
  from Cons.prems(3) obtain h1 where step: "apply_merge h m = Inr h1"
    and rest: "run_merges h1 ms = Inr h'"
    by (auto split: sum.splits)
  have "unique_dates h1"
  proof (cases m)
    case (Daily today_row)
    then show ?thesis
      using Cons.prems(1,2) step by (auto intro: upsert_daily_row_unique)
  next
    case (Batch last90)
    then show ?thesis
      using Cons.prems(1,2) step by (auto intro: upsert_90d_unique)
  qed
  then show ?case
    using Cons.IH [of h1] Cons.prems(2) rest by simp
qed

theorem run_merges_unique_dates_witness:
  "unique_dates \<lparr>columns = [], rows = []\<rparr>
   \<and> list_all valid_op
        [Daily \<lparr>columns = [''USD'', ''PLN''], rows = [(1704412800000000000, [Num 1.09, Num 4.35])]\<rparr>,
         Batch \<lparr>columns = [''USD'', ''PLN''],
                rows = [(1704326400000000000, [Num 1.08, Num 4.36]),
                        (1704412800000000000, [Num 1.10, Num 4.34])]\<rparr>,
         Daily \<lparr>columns = [''USD'', ''PLN''], rows = [(1704412800000000000, [Num 1.11, Num 4.33])]\<rparr>]
   \<and> run_merges \<lparr>columns = [], rows = []\<rparr>
        [Daily \<lparr>columns = [''USD'', ''PLN''], rows = [(1704412800000000000, [Num 1.09, Num 4.35])]\<rparr>,
         Batch \<lparr>columns = [''USD'', ''PLN''],
                rows = [(1704326400000000000, [Num 1.08, Num 4.36]),
                        (1704412800000000000, [Num 1.10, Num 4.34])]\<rparr>,
         Daily \<lparr>columns = [''USD'', ''PLN''], rows = [(1704412800000000000, [Num 1.11, Num 4.33])]\<rparr>]
      = Inr \<lparr>columns = [''USD'', ''PLN''],
              rows = [(1704326400000000000, [Num 1.08, Num 4.36]),
                      (1704412800000000000, [Num 1.10, Num 4.34])]\<rparr>
   \<and> unique_dates \<lparr>columns = [''USD'', ''PLN''],
              rows = [(1704326400000000000, [Num 1.08, Num 4.36]),
                      (1704412800000000000, [Num 1.10, Num 4.34])]\<rparr>"
proof -
  let ?h = "\<lparr>columns = [], rows = []\<rparr>"
  let ?t1 = "\<lparr>columns = [''USD'', ''PLN''], rows = [(1704412800000000000, [Num 1.09, Num 4.35])]\<rparr>"
  let ?b = "\<lparr>columns = [''USD'', ''PLN''],
                rows = [(1704326400000000000, [Num 1.08, Num 4.36]),
                        (1704412800000000000, [Num 1.10, Num 4.34])]\<rparr>"
  let ?t2 = "\<lparr>columns = [''USD'', ''PLN''], rows = [(1704412800000000000, [Num 1.11, Num 4.33])]\<rparr>"
  have 1: "unique_dates ?h" by (simp add: unique_dates_def dates_def)
  have 2: "list_all valid_op [Daily ?t1, Batch ?b, Daily ?t2]"
    by (simp add: unique_dates_def dates_def)
  have d1: "upsert_daily_row ?h ?t1 = Inr ?t1"
    by (simp add: upsert_daily_row_def dates_def add_missing_columns_def add_column_def
          select_columns_def concat_frames_def sort_values_def cell_of_def)
  have d2: "upsert_90d_into_history ?t1 ?b = Inr ?b"
    by (simp add: upsert_90d_into_history_def update_def index_difference_def dates_def
          sort_values_def concat_frames_def loc_def cell_of_def isna_def)
  have d3: "upsert_daily_row ?b ?t2 = Inr ?b"
    by (simp add: upsert_daily_row_def dates_def)
  have 3: "run_merges ?h [Daily ?t1, Batch ?b, Daily ?t2] = Inr ?b"
    by (simp only: run_merges.simps apply_merge.simps d1 d2 d3 sum.case)
  from run_merges_unique_dates [OF 1 2 3] 1 2 3 show ?thesis by blast
qed

section \<open>The deriver on missing and zero denominators\<close>




section \<open>End-to-end scenario A\<close>

text \<open>
  C4, as stated, fails: EUR is the base currency of the feed and needs no EUR column, the
  deriver always writes \<^verbatim>\<open>EUR_PLN\<close> as a copy of the PLN column when EUR is a target. After
  merging the observation of 2024-01-02 (PLN 4.35, USD 1.10) into the empty history, the
  output for the target list [EUR] has a row, and the output for [EUR, USD] has two
  columns.
\<close>

theorem scenario_a_eur_counterexample:
  "upsert_daily_row \<lparr>columns = [], rows = []\<rparr>
     \<lparr>columns = [''PLN'', ''USD''], rows = [(1704153600000000000, [Num 4.35, Num 1.10])]\<rparr>
   = Inr \<lparr>columns = [''PLN'', ''USD''], rows = [(1704153600000000000, [Num 4.35, Num 1.10])]\<rparr>
   \<and> compute_pln_rates
       \<lparr>columns = [''PLN'', ''USD''], rows = [(1704153600000000000, [Num 4.35, Num 1.10])]\<rparr> [''EUR'']
     = Inr \<lparr>columns = [''EUR_PLN''], rows = [(1704153600000000000, [Num 4.35])]\<rparr>
   \<and> rows \<lparr>columns = [''EUR_PLN''], rows = [(1704153600000000000, [Num 4.35])]\<rparr> \<noteq> []
   \<and> compute_pln_rates
       \<lparr>columns = [''PLN'', ''USD''], rows = [(1704153600000000000, [Num 4.35, Num 1.10])]\<rparr>
       [''EUR'', ''USD'']
     = Inr \<lparr>columns = [''EUR_PLN'', ''USD_PLN''],
             rows = [(1704153600000000000, [Num 4.35, Num (4.35 / 1.10)])]\<rparr>
   \<and> columns \<lparr>columns = [''EUR_PLN'', ''USD_PLN''],
             rows = [(1704153600000000000, [Num 4.35, Num (4.35 / 1.10)])]\<rparr> \<noteq> [''USD_PLN'']"
  by (simp add: upsert_daily_row_def dates_def add_missing_columns_def add_column_def
        select_columns_def concat_frames_def sort_values_def
        compute_pln_rates_def set_column_def column_def cell_of_def dropna_all_def isna_def)

text \<open>
  C4, amended. Merging the observation of 2024-01-02 (PLN 4.35, USD 1.10) into the empty
  history, by the daily or by the batch merge, gives the one-row history; deriving with
  the targets [EUR, USD] gives one row for 2024-01-02 with \<^verbatim>\<open>EUR_PLN\<close> = 4.35 and
  \<^verbatim>\<open>USD_PLN\<close> = 4.35 / 1.10; deriving with [EUR] alone gives one row with
  \<^verbatim>\<open>EUR_PLN\<close> = 4.35. A target that is neither EUR nor a column (here GBP) is skipped, and
  with only such targets the output has no row.
\<close>

theorem scenario_a:
  "upsert_daily_row \<lparr>columns = [], rows = []\<rparr>
     \<lparr>columns = [''PLN'', ''USD''], rows = [(1704153600000000000, [Num 4.35, Num 1.10])]\<rparr>
   = Inr \<lparr>columns = [''PLN'', ''USD''], rows = [(1704153600000000000, [Num 4.35, Num 1.10])]\<rparr>
   \<and> upsert_90d_into_history \<lparr>columns = [], rows = []\<rparr>
     \<lparr>columns = [''PLN'', ''USD''], rows = [(1704153600000000000, [Num 4.35, Num 1.10])]\<rparr>
   = Inr \<lparr>columns = [''PLN'', ''USD''], rows = [(1704153600000000000, [Num 4.35, Num 1.10])]\<rparr>
   \<and> compute_pln_rates
       \<lparr>columns = [''PLN'', ''USD''], rows = [(1704153600000000000, [Num 4.35, Num 1.10])]\<rparr>
       [''EUR'', ''USD'']
     = Inr \<lparr>columns = [''EUR_PLN'', ''USD_PLN''],
             rows = [(1704153600000000000, [Num 4.35, Num (4.35 / 1.10)])]\<rparr>
   \<and> compute_pln_rates
       \<lparr>columns = [''PLN'', ''USD''], rows = [(1704153600000000000, [Num 4.35, Num 1.10])]\<rparr> [''EUR'']
     = Inr \<lparr>columns = [''EUR_PLN''], rows = [(1704153600000000000, [Num 4.35])]\<rparr>
   \<and> compute_pln_rates
       \<lparr>columns = [''PLN'', ''USD''], rows = [(1704153600000000000, [Num 4.35, Num 1.10])]\<rparr> [''GBP'']
     = Inr \<lparr>columns = [], rows = []\<rparr>
   \<and> compute_pln_rates
       \<lparr>columns = [''PLN'', ''USD''], rows = [(1704153600000000000, [Num 4.35, Num 1.10])]\<rparr>
       [''GBP'', ''USD'']
     = Inr \<lparr>columns = [''USD_PLN''], rows = [(1704153600000000000, [Num (4.35 / 1.10)])]\<rparr>"
  by (simp add: upsert_daily_row_def dates_def add_missing_columns_def add_column_def
        select_columns_def concat_frames_def sort_values_def upsert_90d_into_history_def
        compute_pln_rates_def set_column_def column_def cell_of_def dropna_all_def isna_def)

section \<open>Row order\<close>




section \<open>Schema growth\<close>

text \<open>
  C6. Merging an observation that brings a currency XYZ the history has no column for
  must add the XYZ column. The daily merge fails to: after adding the new columns to the
  history (the loop under the comment \<^verbatim>\<open>dopasuj kolumny\<close>) it selects
  \<^verbatim>\<open>today_row[history.columns]\<close>, which raises KeyError as soon as the history has a
  column the observation lacks. Here the history has USD and BGN on 2024-01-04 and the
  observation USD and XYZ on 2024-01-05: \<^verbatim>\<open>upsert_daily_row\<close> raises, while the batch merge
  of the same frames returns the history with the XYZ column and the new row.
\<close>

theorem upsert_daily_row_new_currency_KeyError:
  "1704412800000000000
     \<notin> set (dates \<lparr>columns = [''USD'', ''BGN''],
                       rows = [(1704326400000000000, [Num 1.08, Num 1.9558])]\<rparr>)
   \<and> ''XYZ'' \<in> set (columns \<lparr>columns = [''USD'', ''XYZ''],
                             rows = [(1704412800000000000, [Num 1.10, Num 7])]\<rparr>)
   \<and> ''XYZ'' \<notin> set (columns \<lparr>columns = [''USD'', ''BGN''],
                             rows = [(1704326400000000000, [Num 1.08, Num 1.9558])]\<rparr>)
   \<and> upsert_daily_row
        \<lparr>columns = [''USD'', ''BGN''], rows = [(1704326400000000000, [Num 1.08, Num 1.9558])]\<rparr>
        \<lparr>columns = [''USD'', ''XYZ''], rows = [(1704412800000000000, [Num 1.10, Num 7])]\<rparr>
      = Inl KeyError
   \<and> upsert_90d_into_history
        \<lparr>columns = [''USD'', ''BGN''], rows = [(1704326400000000000, [Num 1.08, Num 1.9558])]\<rparr>
        \<lparr>columns = [''USD'', ''XYZ''], rows = [(1704412800000000000, [Num 1.10, Num 7])]\<rparr>
      = Inr \<lparr>columns = [''USD'', ''BGN'', ''XYZ''],
              rows = [(1704326400000000000, [Num 1.08, Num 1.9558, NaN]),
                      (1704412800000000000, [Num 1.10, NaN, Num 7])]\<rparr>"
  by (simp add: upsert_daily_row_def add_missing_columns_def add_column_def select_columns_def
        upsert_90d_into_history_def update_def index_difference_def dates_def
        sort_values_def concat_frames_def loc_def cell_of_def isna_def)

section \<open>Merging a batch twice\<close>

text \<open>
  C3. Merging the same batch a second time must change nothing. The code breaks this
  through the loss of C1: \<^verbatim>\<open>update\<close> runs before \<^verbatim>\<open>pd.concat\<close> adds the columns
  of the batch, so on the first merge a currency that is new to the history gets NaN in
  the rows whose date already exists, and on the second merge, the column being there,
  \<^verbatim>\<open>update\<close> writes the value. Here the history has USD on 2024-01-04 and the batch
  brings USD and GBP for 2024-01-04 and 2024-01-05: GBP of 2024-01-04 is NaN after one
  merge and 0.86 after two.
\<close>

theorem upsert_90d_not_idempotent:
  "upsert_90d_into_history
     \<lparr>columns = [''USD''], rows = [(1704326400000000000, [Num 1.08])]\<rparr>
     \<lparr>columns = [''USD'', ''GBP''],
       rows = [(1704326400000000000, [Num 1.09, Num 0.86]),
               (1704412800000000000, [Num 1.10, Num 0.87])]\<rparr>
   = Inr \<lparr>columns = [''USD'', ''GBP''],
           rows = [(1704326400000000000, [Num 1.09, NaN]),
                   (1704412800000000000, [Num 1.10, Num 0.87])]\<rparr>
   \<and> upsert_90d_into_history
     \<lparr>columns = [''USD'', ''GBP''],
       rows = [(1704326400000000000, [Num 1.09, NaN]),
               (1704412800000000000, [Num 1.10, Num 0.87])]\<rparr>
     \<lparr>columns = [''USD'', ''GBP''],
       rows = [(1704326400000000000, [Num 1.09, Num 0.86]),
               (1704412800000000000, [Num 1.10, Num 0.87])]\<rparr>
   = Inr \<lparr>columns = [''USD'', ''GBP''],
           rows = [(1704326400000000000, [Num 1.09, Num 0.86]),
                   (1704412800000000000, [Num 1.10, Num 0.87])]\<rparr>
   \<and> \<lparr>columns = [''USD'', ''GBP''],
           rows = [(1704326400000000000, [Num 1.09, NaN]),
                   (1704412800000000000, [Num 1.10, Num 0.87])]\<rparr>
     \<noteq> \<lparr>columns = [''USD'', ''GBP''],
           rows = [(1704326400000000000, [Num 1.09, Num 0.86]),
                   (1704412800000000000, [Num 1.10, Num 0.87])]\<rparr>"
  by (simp add: upsert_90d_into_history_def update_def index_difference_def dates_def
        sort_values_def concat_frames_def loc_def cell_of_def isna_def)

end
